theory Spec2Isabelle
  imports Complex_Main "HOL-Library.AList"
begin

section \<open>Data model of \<open>src/index.tsx\<close>\<close>

text \<open>
  Values carried in response bodies. The code never inspects them, apart from the nullish
  test of \<open>??\<close> in \<open>getError\<close>; \<open>JNull\<close> is JavaScript's \<open>null\<close> and an absent
  (\<open>undefined\<close>) value is \<open>None\<close> of an option type.
\<close>

datatype json = JNull | JBool bool | JNum int | JStr string | JObj "(string \<times> json) list"

datatype image_status = Draft | Uploaded | Failed

text \<open>
  The interface \<open>Image\<close> (lines 32-39). \<open>extras\<close> is an object with string values; it is
  kept as the list of its entries in the order in which \<open>Object.entries\<close> yields them.
\<close>

record image =
  photoId :: string
  status :: image_status
  uri :: string
  type :: string
  fileName :: string
  extras :: "(string \<times> string) list"

text \<open>
  What a successful \<open>axiosInstance.post\<close> resolves to. \<open>data\<close> is an object, as the
  declared type \<open>UploadResponse\<close> of the success callback says, kept as its entry list.
\<close>

record axios_response =
  data :: "(string \<times> json) list"
  http_status :: int

text \<open>
  An error value (the \<open>AxiosError\<close> of the source, or whatever a callback throws). Only the
  two properties that the code reads are kept: \<open>message\<close>, and \<open>response\<close> with its
  \<open>data\<close> and \<open>status\<close>, each of which may be missing.
\<close>

record error_response =
  err_data :: "json option"
  err_status :: "int option"

record js_error =
  message :: "string option"
  response :: "error_response option"

text \<open>The value \<open>getError\<close> returns: the interface \<open>ErrorResponse\<close>, or the error itself.\<close>

datatype error_report = ErrorResponse json int | RawError js_error

text \<open>The entries appended to the \<open>FormData\<close> of one submission, in the order of the appends.\<close>

datatype form_entry = FilePart string string string | FormField string string

text \<open>
  A caller-supplied function is an opaque handle, and so is the axios instance. A
  parameter that the source declares optional is an option.
\<close>

type_synonym callback = nat
type_synonym axios = nat

text \<open>
  The entries of the array that \<open>Promise.allSettled\<close> resolves to. A fulfilled entry
  carries what the \<open>then\<close> handler returned: the object \<open>{photoId, startTime, endTime}\<close>
  (lines 205-209) or the response itself (lines 248, 292). A rejected entry carries the
  reason: the object \<open>{error, photoId}\<close> (lines 216-219, 254-257), the same with
  \<open>retryCount\<close> (lines 298-302), or the value thrown by the failure callback.
\<close>

datatype fulfilled_value = Timing string nat nat | Response axios_response

datatype rejection = Reason string string "int option" | Thrown js_error

datatype settled = Fulfilled fulfilled_value | Rejected rejection

text \<open>
  The interactions of the module with its surroundings, in the order in which they happen.
  \<open>Submitted\<close> records a call of \<open>axiosInstance.post\<close> with the instance, the url and the
  form data; its first argument is the image the call was made for, which the form data
  alone would not identify.
\<close>

datatype event =
    Compressed string
  | Submitted image axios string "form_entry list"
  | SuccessCb callback "(string \<times> json) list"
  | FailureCb callback error_report string
  | BatchCompleteCb callback "settled list" int
  | ServiceStartCb callback
  | ServiceEndCb callback
  | ServiceStarted
  | ServiceStopped

text \<open>The interface \<open>UploadOptions\<close> (lines 40-47) and the argument of \<open>startBackgroundUpload\<close>.\<close>

record UploadOptions =
  opt_axiosInstance :: axios
  opt_images :: "image list"
  opt_url :: string
  opt_batchSize :: "int option"
  opt_maxRetries :: "int option"
  opt_imageCompression :: "bool option"

record request =
  uploadOptions :: UploadOptions
  req_onSuccess :: "callback option"
  req_onFailure :: "callback option"
  req_onBatchComplete :: "callback option"
  req_onServiceStart :: "callback option"
  req_onServiceEnd :: "callback option"

text \<open>
  The interface \<open>TaskData\<close> (lines 59-70). \<open>batchSize\<close> and \<open>maxRetries\<close> are JavaScript
  numbers; the model covers the integers, of either sign.
\<close>

record TaskData =
  images :: "image list"
  batchSize :: int
  onSuccess :: "callback option"
  onFailure :: "callback option"
  url :: string
  maxRetries :: int
  imageCompression :: bool
  axiosInstance :: axios
  onBatchComplete :: "callback option"
  onServiceEnd :: "callback option"

text \<open>
  The module's state: its two global arrays (lines 73-74), the flag that
  \<open>BackgroundService.isRunning()\<close> reads, the log of interactions, the lines written to
  the console (lines 229, 278 and 327), and \<open>clock\<close>, the number of interactions with
  the surroundings so far. The library \<open>react-native-background-actions\<close> is not part of
  the repository; of it the model keeps the running flag, which \<open>start\<close> sets and \<open>stop\<close>
  clears, and takes both calls to succeed.
\<close>

datatype console_line = Retrying int | ErrorUploadingBatch js_error | StoppingService

record state =
  queuedImages :: "image list"
  failedImages :: "image list"
  isRunning :: bool
  clock :: nat
  trace :: "event list"
  console :: "console_line list"

text \<open>
  The surroundings. What the compressor, the transport, the system time and a callback do
  is not decided by the module, so each is a function of the clock: any sequence of
  outcomes is some such function. \<open>throws\<close> tells whether the callback invoked at that
  moment throws, and what. \<open>arrivals\<close> gives the calls of \<open>startBackgroundUpload\<close> that
  other code makes while the task is suspended at the \<open>await\<close> of a batch.
\<close>

record env =
  platformIOS :: bool
  compress :: "nat \<Rightarrow> string \<Rightarrow> js_error + string"
  post :: "nat \<Rightarrow> axios \<Rightarrow> string \<Rightarrow> form_entry list \<Rightarrow> js_error + axios_response"
  date_now :: "nat \<Rightarrow> nat"
  throws :: "nat \<Rightarrow> callback \<Rightarrow> js_error option"
  arrivals :: "nat \<Rightarrow> request list"

section \<open>The functions of \<open>src/index.tsx\<close>\<close>

text \<open>\<open>getError\<close> (lines 330-338). \<open>x ?? d\<close> is \<open>d\<close> when \<open>x\<close> is \<open>undefined\<close> or \<open>null\<close>.\<close>

definition nullish_data :: "json option \<Rightarrow> json" where
  "nullish_data d = (case d of None \<Rightarrow> JObj [] | Some JNull \<Rightarrow> JObj [] | Some v \<Rightarrow> v)"

definition nullish_status :: "int option \<Rightarrow> int" where
  "nullish_status s = (case s of None \<Rightarrow> 0 | Some c \<Rightarrow> c)"

definition getError :: "js_error \<Rightarrow> error_report" where
  "getError error =
     (case response error of
        Some r \<Rightarrow> ErrorResponse (nullish_data (err_data r)) (nullish_status (err_status r))
      | None \<Rightarrow> RawError error)"

text \<open>\<open>error?.message || 'Unknown error'\<close>: the empty string is falsy.\<close>

definition error_message :: "js_error \<Rightarrow> string" where
  "error_message error =
     (case message error of
        None \<Rightarrow> ''Unknown error''
      | Some m \<Rightarrow> if m = [] then ''Unknown error'' else m)"

text \<open>\<open>compressImage\<close> (lines 76-82): the \<open>catch\<close> returns the uri it was given.\<close>

definition compressImage :: "env \<Rightarrow> string \<Rightarrow> state \<Rightarrow> string \<times> state" where
  "compressImage env u st =
     (let st' = st\<lparr>clock := clock st + 1, trace := trace st @ [Compressed u]\<rparr>
      in case compress env (clock st) u of
           Inr u' \<Rightarrow> (u', st')
         | Inl e \<Rightarrow> (u, st'))"

text \<open>\<open>uploadImage\<close> (lines 84-112). \<open>x || d\<close> on strings is \<open>d\<close> when \<open>x\<close> is empty.\<close>

definition or_default :: "string \<Rightarrow> string \<Rightarrow> string" where
  "or_default x d = (if x = [] then d else x)"

definition formData :: "image \<Rightarrow> string \<Rightarrow> form_entry list" where
  "formData img imageUri =
     FilePart imageUri (or_default (type img) ''image/jpeg'') (or_default (fileName img) ''photo.jpg'')
     # map (\<lambda>(key, v). FormField key v) (extras img)"

definition uploadImage ::
  "env \<Rightarrow> image \<Rightarrow> string \<Rightarrow> bool \<Rightarrow> axios \<Rightarrow> state \<Rightarrow> (js_error + axios_response) \<times> state" where
  "uploadImage env img endpoint compression ax st =
     (let (imageUri, st1) =
            (if compression then compressImage env (uri img) st else (uri img, st));
          fd = formData img imageUri
      in (post env (clock st1) ax endpoint fd,
          st1\<lparr>clock := clock st1 + 1, trace := trace st1 @ [Submitted img ax endpoint fd]\<rparr>))"

text \<open>
  \<open>f && f(args)\<close>: nothing happens when the callback was not supplied; otherwise the call
  is logged and may throw.
\<close>

definition invoke :: "env \<Rightarrow> callback option \<Rightarrow> (callback \<Rightarrow> event) \<Rightarrow> state \<Rightarrow> js_error option \<times> state" where
  "invoke env cbo ev st =
     (case cbo of
        None \<Rightarrow> (None, st)
      | Some cb \<Rightarrow> (throws env (clock st) cb, st\<lparr>clock := clock st + 1, trace := trace st @ [ev cb]\<rparr>))"

text \<open>
  The three passes of \<open>uploadTask\<close> repeat the same loop (lines 192-231, 237-269, 281-313)
  and differ only in what a settled entry holds. The pass is a parameter of the model of
  the loop; \<open>Retry k\<close> is the retry round with \<open>retryCount = k\<close>.
\<close>

datatype pass = Primary | Drain | Retry int

text \<open>\<open>{...response.data, photoId: image?.photoId}\<close> (lines 201-204, 244-247, 288-291).\<close>

definition with_photoId :: "(string \<times> json) list \<Rightarrow> string \<Rightarrow> (string \<times> json) list" where
  "with_photoId d p = AList.update ''photoId'' (JStr p) d"

text \<open>
  The \<open>catch\<close> handler (lines 211-221, 250-259, 294-304). When the failure callback
  throws, the push is not reached and the promise rejects with what was thrown.
\<close>

definition on_rejected :: "env \<Rightarrow> TaskData \<Rightarrow> pass \<Rightarrow> image \<Rightarrow> js_error \<Rightarrow> state \<Rightarrow> settled \<times> state" where
  "on_rejected env td ps img error st =
     (case invoke env (onFailure td) (\<lambda>cb. FailureCb cb (getError error) (photoId img)) st of
        (Some thrown, st1) \<Rightarrow> (Rejected (Thrown thrown), st1)
      | (None, st1) \<Rightarrow>
          (Rejected (Reason (error_message error) (photoId img)
                       (case ps of Retry k \<Rightarrow> Some k | _ \<Rightarrow> None)),
           st1\<lparr>failedImages := failedImages st1 @ [img]\<rparr>))"

text \<open>
  The \<open>then\<close> handler (lines 197-210, 241-249, 285-293). Only the primary pass reads the
  time. A throwing success callback rejects the promise, which the \<open>catch\<close> chained
  after it then handles.
\<close>

definition on_fulfilled ::
  "env \<Rightarrow> TaskData \<Rightarrow> pass \<Rightarrow> image \<Rightarrow> nat \<Rightarrow> axios_response \<Rightarrow> state \<Rightarrow> (js_error + fulfilled_value) \<times> state" where
  "on_fulfilled env td ps img startTime resp st =
     (let (endTime, st1) =
            (case ps of Primary \<Rightarrow> (date_now env (clock st), st\<lparr>clock := clock st + 1\<rparr>)
                      | _ \<Rightarrow> (0, st))
      in case invoke env (onSuccess td) (\<lambda>cb. SuccessCb cb (with_photoId (data resp) (photoId img))) st1 of
           (Some thrown, st2) \<Rightarrow> (Inl thrown, st2)
         | (None, st2) \<Rightarrow>
             (Inr (case ps of Primary \<Rightarrow> Timing (photoId img) startTime endTime
                            | _ \<Rightarrow> Response resp), st2))"

text \<open>One element of \<open>uploadPromises\<close>, run until it has settled.\<close>

definition settle :: "env \<Rightarrow> TaskData \<Rightarrow> pass \<Rightarrow> image \<Rightarrow> state \<Rightarrow> settled \<times> state" where
  "settle env td ps img st =
     (let (startTime, st0) =
            (case ps of Primary \<Rightarrow> (date_now env (clock st), st\<lparr>clock := clock st + 1\<rparr>)
                      | _ \<Rightarrow> (0, st));
          (r, st1) = uploadImage env img (url td) (imageCompression td) (axiosInstance td) st0
      in case r of
           Inl error \<Rightarrow> on_rejected env td ps img error st1
         | Inr resp \<Rightarrow>
             (case on_fulfilled env td ps img startTime resp st1 of
                (Inl thrown, st2) \<Rightarrow> on_rejected env td ps img thrown st2
              | (Inr v, st2) \<Rightarrow> (Fulfilled v, st2)))"

text \<open>
  \<open>Promise.allSettled(uploadPromises)\<close>. The result array is in the order of the batch
  whatever the order of settlement. In the source \<open>batch.map\<close> starts every item of the
  batch (its compression or its submission) before any item settles, and the items settle
  in an order the module does not decide. The model runs each item until it has settled
  before it starts the next, so within one batch the log of the model may order the events
  of different items otherwise than a run does; which events an item has, and how many,
  is the same.
\<close>

fun allSettled :: "env \<Rightarrow> TaskData \<Rightarrow> pass \<Rightarrow> image list \<Rightarrow> state \<Rightarrow> settled list \<times> state" where
  "allSettled env td ps [] st = ([], st)"
| "allSettled env td ps (img # batch) st =
     (let (r, st1) = settle env td ps img st;
          (rs, st2) = allSettled env td ps batch st1
      in (r # rs, st2))"

text \<open>
  Line 141, the branch of \<open>startBackgroundUpload\<close> taken while the service is running:
  \<open>queuedImages.push(...images)\<close>.
\<close>

definition enqueue :: "request \<Rightarrow> state \<Rightarrow> state" where
  "enqueue req st = st\<lparr>queuedImages := queuedImages st @ opt_images (uploadOptions req)\<rparr>"

text \<open>
  While the task is suspended at \<open>await Promise.allSettled\<close>, other code may call
  \<open>startBackgroundUpload\<close>. The service is running then, so each such call takes the
  branch of line 141. In the model the calls made during the \<open>await\<close> of a batch come
  before the items of the batch settle; the batch reads neither array that a call could
  change. Calls made while the task awaits the stop of the service are not modelled.
\<close>

definition suspend :: "env \<Rightarrow> state \<Rightarrow> state" where
  "suspend env st = (foldl (\<lambda>s req. enqueue req s) st (arrivals env (clock st)))\<lparr>clock := clock st + 1\<rparr>"

text \<open>
  The body of the \<open>for\<close> loop for one batch: the promises, the \<open>await\<close>, and
  \<open>onBatchComplete\<close> inside \<open>try\<close> (lines 223-230), whose \<open>catch\<close> writes to the console.
\<close>

definition batch_step :: "env \<Rightarrow> TaskData \<Rightarrow> pass \<Rightarrow> image list \<Rightarrow> int \<Rightarrow> state \<Rightarrow> state" where
  "batch_step env td ps batch currentBatch st =
     (let (result, st1) = allSettled env td ps batch (suspend env st)
      in case invoke env (onBatchComplete td) (\<lambda>cb. BatchCompleteCb cb result currentBatch) st1 of
           (None, st2) \<Rightarrow> st2
         | (Some error, st2) \<Rightarrow> st2\<lparr>console := console st2 @ [ErrorUploadingBatch error]\<rparr>)"

text \<open>
  \<open>Array.prototype.slice(start, end)\<close> on integers: a negative index counts from the end,
  and both are clamped to the array.
\<close>

definition slice_index :: "nat \<Rightarrow> int \<Rightarrow> nat" where
  "slice_index n k = (if k < 0 then nat (max (int n + k) 0) else min (nat k) n)"

definition slice :: "'a list \<Rightarrow> int \<Rightarrow> int \<Rightarrow> 'a list" where
  "slice xs start end =
     (let s = slice_index (length xs) start; e = slice_index (length xs) end
      in take (e - s) (drop s xs))"

text \<open>
  \<open>for (let i = 0; i < xs.length; i += batchSize)\<close>. With a batch size that is not
  positive the loop does not end on a non-empty array, so the result is an option and
  \<open>None\<close> stands for a loop that never returns. \<open>Math.floor(i / batchSize)\<close> is \<open>div\<close>,
  which rounds down on the integers. (For the batch size 0 the source computes \<open>NaN\<close>
  where \<open>div\<close> gives 0; the loop is then entered only to run forever.)
\<close>

partial_function (option) batch_loop ::
  "env \<Rightarrow> TaskData \<Rightarrow> pass \<Rightarrow> image list \<Rightarrow> int \<Rightarrow> state \<Rightarrow> state option" where
  "batch_loop env td ps xs i st =
     (if i < int (length xs)
      then batch_loop env td ps xs (i + batchSize td)
             (batch_step env td ps (slice xs i (i + batchSize td)) (i div batchSize td + 1) st)
      else Some st)"

declare batch_loop.simps [code]

text \<open>The \<open>while\<close> loop of lines 277-315; line 278 writes the round to the console.\<close>

partial_function (option) retry_loop ::
  "env \<Rightarrow> TaskData \<Rightarrow> int \<Rightarrow> state \<Rightarrow> state option" where
  "retry_loop env td retryCount st =
     (if failedImages st \<noteq> [] \<and> retryCount < maxRetries td
      then
        (let failedImagesCopy = failedImages st;
             st1 = st\<lparr>failedImages := [], console := console st @ [Retrying (retryCount + 1)]\<rparr>
         in Option.bind (batch_loop env td (Retry retryCount) failedImagesCopy 0 st1)
              (retry_loop env td (retryCount + 1)))
      else Some st)"

declare retry_loop.simps [code]

text \<open>
  \<open>uploadTask\<close> (lines 175-328). \<open>BackgroundService.stop()\<close> clears the running flag. The
  promise of the task rejects (\<open>Inl\<close>) only when \<open>onServiceEnd\<close> throws, and then
  lines 325-327 are not reached.
\<close>

definition drain_queue :: "env \<Rightarrow> TaskData \<Rightarrow> state \<Rightarrow> state option" where
  "drain_queue env td st =
     (if queuedImages st \<noteq> []
      then batch_loop env td Drain (queuedImages st) 0 (st\<lparr>queuedImages := []\<rparr>)
      else Some st)"

definition retry_failed :: "env \<Rightarrow> TaskData \<Rightarrow> state \<Rightarrow> state option" where
  "retry_failed env td st =
     (if failedImages st \<noteq> [] then retry_loop env td 0 st else Some st)"

definition stop_service :: "env \<Rightarrow> TaskData \<Rightarrow> state \<Rightarrow> (js_error + unit) \<times> state" where
  "stop_service env td st =
     (let st1 = st\<lparr>isRunning := False, trace := trace st @ [ServiceStopped]\<rparr>;
          (thrown, st2) = (if platformIOS env then invoke env (onServiceEnd td) ServiceEndCb st1
                           else (None, st1))
      in case thrown of
           Some error \<Rightarrow> (Inl error, st2)
         | None \<Rightarrow> (Inr (), st2\<lparr>queuedImages := [], failedImages := [],
                                console := console st2 @ [StoppingService]\<rparr>))"

definition uploadTask :: "env \<Rightarrow> TaskData option \<Rightarrow> state \<Rightarrow> ((js_error + unit) \<times> state) option" where
  "uploadTask env taskData st =
     (case taskData of
        None \<Rightarrow> Some (Inr (), st)
      | Some td \<Rightarrow>
          Option.bind (batch_loop env td Primary (images td) 0 st) (\<lambda>st1.
          Option.bind (drain_queue env td st1) (\<lambda>st2.
          Option.bind (retry_failed env td st2) (\<lambda>st3.
          Some (stop_service env td st3)))))"

text \<open>
  \<open>startBackgroundUpload\<close> (lines 114-172), with the defaults of lines 132-134.
  \<open>BackgroundService.start\<close> sets the running flag and runs the task in the background,
  and the call returns while the task still runs. In the branch that starts a run the
  model is coarser than the source in two ways: it logs the start notification of line 170
  before everything the task does, where the library may let the task begin first, and its
  result is the state once the task has ended, with what became of the promise of the call
  (it rejects only when \<open>onServiceStart\<close> throws). The branch taken while the service runs
  is exact.
\<close>

definition or_else :: "'a option \<Rightarrow> 'a \<Rightarrow> 'a" where
  "or_else x d = (case x of None \<Rightarrow> d | Some v \<Rightarrow> v)"

definition taskData_of :: "request \<Rightarrow> TaskData" where
  "taskData_of req =
     (let opts = uploadOptions req
      in \<lparr>images = opt_images opts,
          batchSize = or_else (opt_batchSize opts) 10,
          onSuccess = req_onSuccess req,
          onFailure = req_onFailure req,
          url = opt_url opts,
          maxRetries = or_else (opt_maxRetries opts) 3,
          imageCompression = or_else (opt_imageCompression opts) True,
          axiosInstance = opt_axiosInstance opts,
          onBatchComplete = req_onBatchComplete req,
          onServiceEnd = req_onServiceEnd req\<rparr>)"

definition startBackgroundUpload :: "env \<Rightarrow> request \<Rightarrow> state \<Rightarrow> ((js_error + unit) \<times> state) option" where
  "startBackgroundUpload env req st =
     (if isRunning st then Some (Inr (), enqueue req st)
      else
        (let st1 = st\<lparr>isRunning := True, trace := trace st @ [ServiceStarted]\<rparr>;
             (thrown, st2) = (if platformIOS env then invoke env (req_onServiceStart req) ServiceStartCb st1
                              else (None, st1))
         in Option.bind (uploadTask env (Some (taskData_of req)) st2) (\<lambda>(r, st3).
              Some (case thrown of Some error \<Rightarrow> Inl error | None \<Rightarrow> Inr (), st3))))"

section \<open>Observations on the log\<close>

text \<open>
  An item is identified by its \<open>photoId\<close>. \<open>occurrences p xs\<close> counts the items of \<open>xs\<close>
  with identifier \<open>p\<close>, \<open>submissions p tr\<close> the calls of the transport made for such an
  item in the log \<open>tr\<close>, and \<open>item_callbacks p tr\<close> the success and failure callbacks
  that the log holds for \<open>p\<close>. \<open>service_ends\<close> counts the end-of-service callbacks of a
  log, and \<open>rounds\<close> the retry rounds that the console shows (line 278).
\<close>

definition occurrences :: "string \<Rightarrow> image list \<Rightarrow> nat" where
  "occurrences p xs = length (filter (\<lambda>x. photoId x = p) xs)"

fun is_submission :: "string \<Rightarrow> event \<Rightarrow> bool" where
  "is_submission p (Submitted img ax endpoint fd) = (photoId img = p)"
| "is_submission p e = False"

definition submissions :: "string \<Rightarrow> event list \<Rightarrow> nat" where
  "submissions p tr = length (filter (is_submission p) tr)"

fun is_item_callback :: "string \<Rightarrow> event \<Rightarrow> bool" where
  "is_item_callback p (SuccessCb cb payload) = (map_of payload ''photoId'' = Some (JStr p))"
| "is_item_callback p (FailureCb cb report q) = (q = p)"
| "is_item_callback p e = False"

definition item_callbacks :: "string \<Rightarrow> event list \<Rightarrow> nat" where
  "item_callbacks p tr = length (filter (is_item_callback p) tr)"

fun is_service_end :: "event \<Rightarrow> bool" where
  "is_service_end (ServiceEndCb cb) = True"
| "is_service_end e = False"

definition service_ends :: "event list \<Rightarrow> nat" where
  "service_ends tr = length (filter is_service_end tr)"

fun is_retrying :: "console_line \<Rightarrow> bool" where
  "is_retrying (Retrying k) = True"
| "is_retrying l = False"

definition rounds :: "console_line list \<Rightarrow> nat" where
  "rounds ls = length (filter is_retrying ls)"

text \<open>
  An event uses the configuration of a task: the transport, the url, the compression flag
  and the callbacks are those of its data. The task itself never starts the service.
\<close>

fun conforms :: "TaskData \<Rightarrow> event \<Rightarrow> bool" where
  "conforms td (Compressed u) = imageCompression td"
| "conforms td (Submitted img ax endpoint fd) = (ax = axiosInstance td \<and> endpoint = url td)"
| "conforms td (SuccessCb cb payload) = (onSuccess td = Some cb)"
| "conforms td (FailureCb cb report p) = (onFailure td = Some cb)"
| "conforms td (BatchCompleteCb cb results k) = (onBatchComplete td = Some cb)"
| "conforms td (ServiceEndCb cb) = (onServiceEnd td = Some cb)"
| "conforms td (ServiceStartCb cb) = False"
| "conforms td ServiceStarted = False"
| "conforms td ServiceStopped = True"









text \<open>The submissions and the item callbacks that a log holds for an identifier, in order.\<close>

definition events_of :: "string \<Rightarrow> event list \<Rightarrow> event list" where
  "events_of p tr = filter (\<lambda>e. is_submission p e \<or> is_item_callback p e) tr"

text \<open>
  The batches of a list for a batch size \<open>b\<close>: the \<open>k\<close>-th holds the items from offset
  \<open>k * b\<close> up to, but not including, offset \<open>k * b + b\<close>.
\<close>

definition batch_of :: "nat \<Rightarrow> 'a list \<Rightarrow> nat \<Rightarrow> 'a list" where
  "batch_of b xs k = take b (drop (k * b) xs)"

definition batch_count :: "nat \<Rightarrow> nat \<Rightarrow> nat" where
  "batch_count b n = (n + b - 1) div b"

section \<open>Relations between the state before and the state after\<close>

text \<open>
  What one settled item does to the state: \<open>extends s evs fs s'\<close> says that \<open>s'\<close> is \<open>s\<close>
  with the events \<open>evs\<close> added to the log and the items \<open>fs\<close> added to the failure set,
  the clock apart. The three predicates after it describe the events of the transform, of
  the success callback and of the failure callback for an item.
\<close>

definition extends :: "state \<Rightarrow> event list \<Rightarrow> image list \<Rightarrow> state \<Rightarrow> bool" where
  "extends s evs fs s' \<longleftrightarrow>
     trace s' = trace s @ evs \<and> failedImages s' = failedImages s @ fs \<and>
     queuedImages s' = queuedImages s \<and> isRunning s' = isRunning s \<and> console s' = console s"

definition transform_part :: "TaskData \<Rightarrow> image \<Rightarrow> event list \<Rightarrow> bool" where
  "transform_part td img evs \<longleftrightarrow>
     (if imageCompression td then evs = [Compressed (uri img)] else evs = [])"

definition success_part :: "TaskData \<Rightarrow> image \<Rightarrow> event list \<Rightarrow> bool" where
  "success_part td img evs \<longleftrightarrow>
     evs = [] \<or> (\<exists>cb payload. onSuccess td = Some cb \<and>
                   evs = [SuccessCb cb (with_photoId payload (photoId img))])"

definition failure_part :: "TaskData \<Rightarrow> image \<Rightarrow> event list \<Rightarrow> bool" where
  "failure_part td img evs \<longleftrightarrow>
     evs = [] \<or> (\<exists>cb report. onFailure td = Some cb \<and> evs = [FailureCb cb report (photoId img)])"

text \<open>
  No callback ever throws; and no request that arrives while the task runs holds an item
  with the identifier \<open>p\<close>.
\<close>

definition never_throws :: "env \<Rightarrow> bool" where
  "never_throws env \<longleftrightarrow> (\<forall>k cb. throws env k cb = None)"

definition quiet :: "env \<Rightarrow> string \<Rightarrow> bool" where
  "quiet env p \<longleftrightarrow>
     (\<forall>k. \<forall>req \<in> set (arrivals env k). occurrences p (opt_images (uploadOptions req)) = 0)"

text \<open>
  The relations that the passes maintain between the state before and the state after
  the processing of the items \<open>xs\<close>. \<open>attempts\<close>: every item is submitted once, the
  failure set gains no more than the items processed, the queue loses nothing, and no retry
  round is announced. \<open>paired\<close>: as many item callbacks as submissions are added.
  \<open>unended\<close>: no end-of-service callback is made and the running flag is kept.
  \<open>conforming\<close>: every event added uses the configuration of the task.
\<close>

definition attempts :: "env \<Rightarrow> string \<Rightarrow> image list \<Rightarrow> state \<Rightarrow> state \<Rightarrow> bool" where
  "attempts env p xs s s' \<longleftrightarrow>
     submissions p (trace s') = submissions p (trace s) + occurrences p xs \<and>
     occurrences p (failedImages s') \<le> occurrences p (failedImages s) + occurrences p xs \<and>
     occurrences p (queuedImages s) \<le> occurrences p (queuedImages s') \<and>
     (quiet env p \<longrightarrow> occurrences p (queuedImages s') = occurrences p (queuedImages s)) \<and>
     rounds (console s') = rounds (console s)"

definition paired :: "string \<Rightarrow> state \<Rightarrow> state \<Rightarrow> bool" where
  "paired p s s' \<longleftrightarrow>
     item_callbacks p (trace s') + submissions p (trace s) =
       item_callbacks p (trace s) + submissions p (trace s')"


definition conforming :: "TaskData \<Rightarrow> state \<Rightarrow> state \<Rightarrow> bool" where
  "conforming td s s' \<longleftrightarrow> (\<exists>new. trace s' = trace s @ new \<and> list_all (conforms td) new)"

section \<open>Sample data\<close>

definition sample_image :: "string \<Rightarrow> image" where
  "sample_image p =
     \<lparr>photoId = p, status = Draft, uri = ''file:///photos/'' @ p, type = [],
      fileName = p @ ''.png'', extras = [(''album'', ''trip'')]\<rparr>"

text \<open>The module before any run, and the module while a run is under way.\<close>

definition idle :: state where
  "idle = \<lparr>queuedImages = [], failedImages = [], isRunning = False, clock = 0, trace = [], console = []\<rparr>"

definition busy :: state where
  "busy = idle\<lparr>isRunning := True\<rparr>"

text \<open>
  An error without a response, an error whose response has the body \<open>null\<close>, an error
  whose response has a body, and a response of success.
\<close>

definition network_error :: js_error where
  "network_error = \<lparr>message = Some ''Network Error'', response = None\<rparr>"

definition null_body_error :: js_error where
  "null_body_error =
     \<lparr>message = Some ''Request failed with status code 500'',
      response = Some \<lparr>err_data = Some JNull, err_status = Some 500\<rparr>\<rparr>"

definition server_error :: js_error where
  "server_error =
     \<lparr>message = Some ''Request failed with status code 503'',
      response = Some \<lparr>err_data = Some (JStr ''busy''), err_status = Some 503\<rparr>\<rparr>"

definition ok_response :: axios_response where
  "ok_response = \<lparr>data = [(''success'', JBool True)], http_status = 200\<rparr>"

text \<open>
  Surroundings in which nothing works, surroundings in which everything does, and the
  latter on a platform other than iOS. No callback throws and no request arrives.
\<close>

definition offline :: env where
  "offline =
     \<lparr>platformIOS = True, compress = (\<lambda>k u. Inl network_error),
      post = (\<lambda>k ax endpoint fd. Inl network_error), date_now = (\<lambda>k. 1000 + k),
      throws = (\<lambda>k cb. None), arrivals = (\<lambda>k. [])\<rparr>"

definition online :: env where
  "online =
     \<lparr>platformIOS = True, compress = (\<lambda>k u. Inr (u @ ''.min'')),
      post = (\<lambda>k ax endpoint fd. Inr ok_response), date_now = (\<lambda>k. 1000 + k),
      throws = (\<lambda>k cb. None), arrivals = (\<lambda>k. [])\<rparr>"



text \<open>
  The data of a task with every callback supplied and compression off, for a list of
  items, a batch size and a retry limit; a request that leaves the optional settings out;
  and a request whose settings and callbacks all differ from those of the other two.
\<close>

definition sample_task :: "image list \<Rightarrow> int \<Rightarrow> int \<Rightarrow> TaskData" where
  "sample_task xs b n =
     \<lparr>images = xs, batchSize = b, onSuccess = Some 1, onFailure = Some 2,
      url = ''https://host/upload'', maxRetries = n, imageCompression = False,
      axiosInstance = 7, onBatchComplete = Some 3, onServiceEnd = Some 5\<rparr>"

definition sample_request :: "image list \<Rightarrow> request" where
  "sample_request xs =
     \<lparr>uploadOptions =
        \<lparr>opt_axiosInstance = 7, opt_images = xs, opt_url = ''https://host/upload'',
         opt_batchSize = None, opt_maxRetries = None, opt_imageCompression = None\<rparr>,
      req_onSuccess = Some 1, req_onFailure = Some 2, req_onBatchComplete = Some 3,
      req_onServiceStart = Some 4, req_onServiceEnd = Some 5\<rparr>"

definition other_request :: "image list \<Rightarrow> request" where
  "other_request xs =
     \<lparr>uploadOptions =
        \<lparr>opt_axiosInstance = 8, opt_images = xs, opt_url = ''https://elsewhere/upload'',
         opt_batchSize = Some 1, opt_maxRetries = Some 0, opt_imageCompression = Some True\<rparr>,
      req_onSuccess = Some 11, req_onFailure = Some 12, req_onBatchComplete = None,
      req_onServiceStart = None, req_onServiceEnd = Some 15\<rparr>"

text \<open>
  Surroundings in which everything works and two requests arrive while a task with one
  item and compression off runs: one during the only batch of the primary pass (the clock
  is 0 then), one during the only batch of the drain (the clock is 6).
\<close>

definition late_arrivals :: env where
  "late_arrivals =
     online\<lparr>arrivals := (\<lambda>k. if k = 0 then [other_request [sample_image ''b'']]
                             else if k = 6 then [other_request [sample_image ''c'']] else [])\<rparr>"

section \<open>Rules for the loops\<close>

text \<open>
  For a positive batch size the \<open>for\<close> loop ends, and what it does is the batch step
  applied to the batches in turn. The rules below carry a relation \<open>R xs s s'\<close> between
  the state before and the state after the processing of the items \<open>xs\<close> from one
  settled item to a whole pass.
\<close>

lemma batch_count_ceiling:
  assumes "0 < b"
  shows "int ((n + b - 1) div b) = \<lceil>real n / real b\<rceil>"
proof -
  define q where "q = (n + b - 1) div b"
  have "n + b - 1 = q * b + (n + b - 1) mod b" by (simp add: q_def)
  moreover have "(n + b - 1) mod b < b" using assms by simp
  ultimately have lo: "n \<le> q * b" and hi: "q * b < n + b" using assms by linarith+
  have "real n \<le> real (q * b)" using lo by (simp only: of_nat_le_iff)
  then have 1: "real n / real b \<le> real_of_int (int q)"
    using assms by (simp add: pos_divide_le_eq)
  have "real (q * b) < real (n + b)" using hi by (simp only: of_nat_less_iff)
  then have "(real q - 1) * real b < real n" by (simp add: algebra_simps)
  then have 2: "real_of_int (int q) - 1 < real n / real b"
    using assms by (simp add: pos_less_divide_eq)
  show ?thesis unfolding q_def[symmetric] using ceiling_unique[OF 2 1] by simp
qed


lemma slice_take_drop:
  assumes "0 < b"
  shows "slice xs (int i) (int i + int b) = take b (drop i xs)"
proof -
  have "take (min (i + b) (length xs) - min i (length xs)) (drop (min i (length xs)) xs) = take b (drop i xs)"
  proof (cases "i < length xs")
    case True
    then have "min (i + b) (length xs) - min i (length xs) = min b (length (drop i xs))"
      by auto
    then show ?thesis using True by (simp add: min_def)
  next
    case False
    then show ?thesis by simp
  qed
  then show ?thesis
    by (simp add: slice_def slice_index_def Let_def nat_add_distrib)
qed

lemma batch_bound: "0 < b \<Longrightarrow> j < (n + b - 1) div b \<longleftrightarrow> j * b < (n::nat)"
proof -
  assume b: "0 < b"
  have "j < (n + b - 1) div b \<longleftrightarrow> Suc j \<le> (n + b - 1) div b" by auto
  also have "\<dots> \<longleftrightarrow> Suc j * b \<le> n + b - 1" using b by (simp add: less_eq_div_iff_mult_less_eq)
  also have "\<dots> \<longleftrightarrow> j * b < n" using b by auto
  finally show ?thesis .
qed

lemma batch_loop_unroll:
  assumes "batchSize td = int b" "0 < b"
  shows "batch_loop env td ps xs (int (j * b)) st =
    Some (foldl (\<lambda>s k. batch_step env td ps (batch_of b xs k) (int k + 1) s) st [j..<batch_count b (length xs)])"
proof (induction "batch_count b (length xs) - j" arbitrary: j st)
  case 0
  then have stop: "\<not> j < batch_count b (length xs)" by simp
  then have "\<not> j * b < length xs"
    using batch_bound[OF assms(2), of j "length xs"] by (simp add: batch_count_def)
  then have "\<not> int (j * b) < int (length xs)" by linarith
  then show ?case using stop
    by (subst batch_loop.simps) (simp del: of_nat_mult)
next
  case (Suc m)
  then have lt: "j < batch_count b (length xs)" by simp
  then have "j * b < length xs"
    using batch_bound[OF assms(2), of j "length xs"] by (simp add: batch_count_def)
  then have go: "int (j * b) < int (length xs)" by linarith
  have next_i: "int (j * b) + int b = int (Suc j * b)" by simp
  have idx: "int (j * b) div int b = int j"
    using assms(2) by (simp flip: of_nat_div del: of_nat_mult)
  have m: "m = batch_count b (length xs) - Suc j" using Suc(2) by simp
  have sl: "slice xs (int (j * b)) (int (Suc j * b)) = batch_of b xs j"
    unfolding next_i[symmetric] batch_of_def by (rule slice_take_drop[OF assms(2)])
  have "batch_loop env td ps xs (int (j * b)) st =
          batch_loop env td ps xs (int (Suc j * b))
            (batch_step env td ps (batch_of b xs j) (int j + 1) st)"
    using go assms
    by (subst batch_loop.simps)
       (simp only: next_i idx sl if_True)
  also have "\<dots> = Some (foldl (\<lambda>s k. batch_step env td ps (batch_of b xs k) (int k + 1) s)
                        (batch_step env td ps (batch_of b xs j) (int j + 1) st)
                        [Suc j..<batch_count b (length xs)])"
    by (rule Suc(1)[OF m])
  finally show ?case using lt by (simp add: upt_conv_Cons)
qed


lemma allSettled_rule:
  assumes settle: "\<And>img s. R [img] s (snd (settle env td ps img s))"
    and refl: "\<And>s. R [] s s"
    and trans: "\<And>xs ys s s' s''. R xs s s' \<Longrightarrow> R ys s' s'' \<Longrightarrow> R (xs @ ys) s s''"
  shows "R batch st (snd (allSettled env td ps batch st))"
proof (induction batch arbitrary: st)
  case Nil
  show ?case by (simp add: refl)
next
  case (Cons img batch)
  have "R ([img] @ batch) st (snd (allSettled env td ps batch (snd (settle env td ps img st))))"
    by (rule trans[OF settle Cons.IH])
  then show ?case by (simp add: Let_def case_prod_beta)
qed

lemma batch_step_rule:
  assumes settle: "\<And>img s. R [img] s (snd (settle env td ps img s))"
    and susp: "\<And>s. R [] s (suspend env s)"
    and report: "\<And>s res k. R [] s (snd (invoke env (onBatchComplete td) (\<lambda>cb. BatchCompleteCb cb res k) s))"
    and cons: "\<And>s e. R [] s (s\<lparr>console := console s @ [ErrorUploadingBatch e]\<rparr>)"
    and refl: "\<And>s. R [] s s"
    and trans: "\<And>xs ys s s' s''. R xs s s' \<Longrightarrow> R ys s' s'' \<Longrightarrow> R (xs @ ys) s s''"
  shows "R batch st (batch_step env td ps batch k st)"
proof -
  define st1 where "st1 = suspend env st"
  define res where "res = fst (allSettled env td ps batch st1)"
  define st2 where "st2 = snd (allSettled env td ps batch st1)"
  define thrown where "thrown = fst (invoke env (onBatchComplete td) (\<lambda>cb. BatchCompleteCb cb res k) st2)"
  define st3 where "st3 = snd (invoke env (onBatchComplete td) (\<lambda>cb. BatchCompleteCb cb res k) st2)"
  have 1: "R [] st st1" unfolding st1_def by (rule susp)
  have 2: "R batch st1 st2" unfolding st2_def by (rule allSettled_rule[of R, OF settle refl trans])
  have 3: "R [] st2 st3" unfolding st3_def by (rule report)
  have 12: "R batch st st2" using trans[OF 1 2] by simp
  have 123: "R batch st st3" using trans[OF 12 3] by simp
  have "batch_step env td ps batch k st =
          (case thrown of None \<Rightarrow> st3 | Some error \<Rightarrow> st3\<lparr>console := console st3 @ [ErrorUploadingBatch error]\<rparr>)"
    by (simp add: batch_step_def st1_def res_def st2_def thrown_def st3_def Let_def split: prod.splits option.splits)
  moreover have "R batch st (st3\<lparr>console := console st3 @ [ErrorUploadingBatch e]\<rparr>)" for e
    using trans[OF 123 cons[of st3 e]] by simp
  ultimately show ?thesis using 123 by (simp split: option.splits)
qed

lemma pass_rule:
  assumes pos: "0 < batchSize td"
    and settle: "\<And>img s. R [img] s (snd (settle env td ps img s))"
    and susp: "\<And>s. R [] s (suspend env s)"
    and report: "\<And>s res k. R [] s (snd (invoke env (onBatchComplete td) (\<lambda>cb. BatchCompleteCb cb res k) s))"
    and cons: "\<And>s e. R [] s (s\<lparr>console := console s @ [ErrorUploadingBatch e]\<rparr>)"
    and refl: "\<And>s. R [] s s"
    and trans: "\<And>xs ys s s' s''. R xs s s' \<Longrightarrow> R ys s' s'' \<Longrightarrow> R (xs @ ys) s s''"
  shows "\<exists>st'. batch_loop env td ps xs 0 st = Some st' \<and> R xs st st'"
proof -
  define b where "b = nat (batchSize td)"
  have b: "batchSize td = int b" "0 < b" using pos by (simp_all add: b_def)
  let ?step = "\<lambda>s k. batch_step env td ps (batch_of b xs k) (int k + 1) s"
  have "R (drop (j * b) xs) s (foldl ?step s [j..<batch_count b (length xs)])" for j s
  proof (induction "batch_count b (length xs) - j" arbitrary: j s)
    case 0
    then have stop: "\<not> j < batch_count b (length xs)" by simp
    then have "\<not> j * b < length xs"
      using batch_bound[OF b(2), of j "length xs"] by (simp add: batch_count_def)
    then show ?case using stop by (simp add: refl)
  next
    case (Suc m)
    then have lt: "j < batch_count b (length xs)" by simp
    have m: "m = batch_count b (length xs) - Suc j" using Suc(2) by simp
    have split: "drop (j * b) xs = batch_of b xs j @ drop (Suc j * b) xs"
      by (simp add: batch_of_def flip: drop_drop)
    have "R (batch_of b xs j) s (?step s j)"
      by (rule batch_step_rule[of R, OF settle susp report cons refl trans])
    from trans[OF this Suc(1)[OF m]] show ?case using lt by (simp add: upt_conv_Cons split)
  qed
  from this[of 0 st] batch_loop_unroll[OF b, of env ps xs 0 st] show ?thesis by simp
qed

lemma batch_loop_total: "0 < batchSize td \<Longrightarrow> \<exists>st'. batch_loop env td ps xs 0 st = Some st'"
  using pass_rule[of td "\<lambda>xs s s'. True" env ps xs st] by simp


lemma retry_loop_rule:
  assumes pos: "0 < batchSize td"
    and init: "J k st"
    and round: "\<And>k s s'. J k s \<Longrightarrow> failedImages s \<noteq> [] \<Longrightarrow> k < maxRetries td \<Longrightarrow>
        batch_loop env td (Retry k) (failedImages s) 0
          (s\<lparr>failedImages := [], console := console s @ [Retrying (k + 1)]\<rparr>) = Some s' \<Longrightarrow>
        J (k + 1) s'"
  shows "\<exists>k' st'. retry_loop env td k st = Some st' \<and> J k' st' \<and> k \<le> k' \<and>
           (failedImages st' = [] \<or> maxRetries td \<le> k')"
  using init
proof (induction "nat (maxRetries td - k)" arbitrary: k st)
  case 0
  then have "\<not> k < maxRetries td" by simp
  then have "retry_loop env td k st = Some st" by (subst retry_loop.simps) simp
  then show ?case using 0 by auto
next
  case (Suc m)
  show ?case
  proof (cases "failedImages st = []")
    case True
    then have "retry_loop env td k st = Some st" by (subst retry_loop.simps) simp
    then show ?thesis using True Suc.prems by auto
  next
    case False
    have lt: "k < maxRetries td" using Suc(2) by simp
    let ?s1 = "st\<lparr>failedImages := [], console := console st @ [Retrying (k + 1)]\<rparr>"
    obtain s' where s': "batch_loop env td (Retry k) (failedImages st) 0 ?s1 = Some s'"
      using batch_loop_total[OF pos] by blast
    have J': "J (k + 1) s'" by (rule round[OF Suc.prems False lt s'])
    have m: "m = nat (maxRetries td - (k + 1))" using Suc(2) by simp
    obtain k' st' where r: "retry_loop env td (k + 1) s' = Some st'" "J k' st'" "k + 1 \<le> k'"
        "failedImages st' = [] \<or> maxRetries td \<le> k'"
      using Suc(1)[OF m J'] by blast
    have "retry_loop env td k st = Some st'"
      using False lt s' r(1) by (subst retry_loop.simps) (simp add: Let_def)
    then show ?thesis using r by auto
  qed
qed


subsection \<open>One settled item\<close>

lemma extends_refl: "extends s [] [] s"
  by (simp add: extends_def)

lemma extends_trans:
  "extends s evs fs s1 \<Longrightarrow> extends s1 evs' fs' s2 \<Longrightarrow> extends s (evs @ evs') (fs @ fs') s2"
  by (simp add: extends_def)

lemma uploadImage_effect:
  "\<exists>pre fd. extends s (pre @ [Submitted img ax endpoint fd]) [] (snd (uploadImage env img endpoint c ax s)) \<and>
     (if c then pre = [Compressed (uri img)] else pre = [])"
  by (auto simp: uploadImage_def compressImage_def extends_def Let_def split: sum.splits)

lemma on_rejected_effect:
  "\<exists>F fs. extends s F fs (snd (on_rejected env td ps img e s)) \<and> failure_part td img F \<and>
     (fs = [] \<or> fs = [img]) \<and>
     (never_throws env \<longrightarrow> fs = [img] \<and> (onFailure td \<noteq> None \<longrightarrow> length F = 1))"
  by (cases "onFailure td")
     (auto simp: on_rejected_def invoke_def extends_def failure_part_def never_throws_def
           split: option.splits)

lemma on_fulfilled_effect:
  "\<exists>S. extends s S [] (snd (on_fulfilled env td ps img t0 resp s)) \<and> success_part td img S \<and>
     (never_throws env \<longrightarrow> (\<exists>v. fst (on_fulfilled env td ps img t0 resp s) = Inr v) \<and>
        (onSuccess td \<noteq> None \<longrightarrow> length S = 1))"
  by (cases "onSuccess td"; cases ps)
     (auto simp: on_fulfilled_def invoke_def extends_def success_part_def never_throws_def
           split: option.splits)


lemma settle_effect:
  "\<exists>pre fd S F fs.
     extends s (pre @ [Submitted img (axiosInstance td) (url td) fd] @ S @ F) fs
       (snd (settle env td ps img s)) \<and>
     transform_part td img pre \<and> success_part td img S \<and> failure_part td img F \<and>
     (fs = [] \<or> fs = [img]) \<and>
     (never_throws env \<longrightarrow> onSuccess td \<noteq> None \<longrightarrow> onFailure td \<noteq> None \<longrightarrow> length (S @ F) = 1)"
proof -
  define t0 where "t0 = (case ps of Primary \<Rightarrow> date_now env (clock s) | _ \<Rightarrow> 0)"
  define s0 where "s0 = (case ps of Primary \<Rightarrow> s\<lparr>clock := clock s + 1\<rparr> | _ \<Rightarrow> s)"
  define r where "r = fst (uploadImage env img (url td) (imageCompression td) (axiosInstance td) s0)"
  define s1 where "s1 = snd (uploadImage env img (url td) (imageCompression td) (axiosInstance td) s0)"
  have unfold: "settle env td ps img s =
      (case r of
         Inl error \<Rightarrow> on_rejected env td ps img error s1
       | Inr resp \<Rightarrow>
           (case fst (on_fulfilled env td ps img t0 resp s1) of
              Inl thrown \<Rightarrow> on_rejected env td ps img thrown (snd (on_fulfilled env td ps img t0 resp s1))
            | Inr v \<Rightarrow> (Fulfilled v, snd (on_fulfilled env td ps img t0 resp s1))))"
    by (cases ps) (simp_all add: settle_def t0_def s0_def r_def s1_def Let_def case_prod_beta
                     split: sum.splits)
  have e0: "extends s [] [] s0"
    by (cases ps) (simp_all add: s0_def extends_def)
  obtain pre fd where up: "extends s0 (pre @ [Submitted img (axiosInstance td) (url td) fd]) [] s1"
      and pre: "transform_part td img pre"
    using uploadImage_effect[of s0 img "axiosInstance td" "url td" env "imageCompression td"]
    unfolding s1_def transform_part_def by blast
  have e1: "extends s (pre @ [Submitted img (axiosInstance td) (url td) fd]) [] s1"
    using extends_trans[OF e0 up] by simp
  show ?thesis
  proof (cases r)
    case (Inl error)
    obtain F fs where rej: "extends s1 F fs (snd (on_rejected env td ps img error s1))"
        "failure_part td img F" "fs = [] \<or> fs = [img]"
        "never_throws env \<longrightarrow> fs = [img] \<and> (onFailure td \<noteq> None \<longrightarrow> length F = 1)"
      using on_rejected_effect[of s1 env td ps img error] by blast
    have "extends s (pre @ [Submitted img (axiosInstance td) (url td) fd] @ [] @ F) fs
            (snd (settle env td ps img s))"
      using extends_trans[OF e1 rej(1)] Inl by (simp add: unfold)
    moreover have "success_part td img []" by (simp add: success_part_def)
    ultimately show ?thesis using pre rej(2,3,4) by (metis append_Nil)
  next
    case (Inr resp)
    define s2 where "s2 = snd (on_fulfilled env td ps img t0 resp s1)"
    obtain S where ful: "extends s1 S [] s2" "success_part td img S"
        "never_throws env \<longrightarrow> (\<exists>v. fst (on_fulfilled env td ps img t0 resp s1) = Inr v) \<and>
           (onSuccess td \<noteq> None \<longrightarrow> length S = 1)"
      using on_fulfilled_effect[of s1 env td ps img t0 resp] unfolding s2_def by blast
    have e2: "extends s (pre @ [Submitted img (axiosInstance td) (url td) fd] @ S) [] s2"
      using extends_trans[OF e1 ful(1)] by simp
    show ?thesis
    proof (cases "fst (on_fulfilled env td ps img t0 resp s1)")
      case (Inl thrown)
      obtain F fs where rej: "extends s2 F fs (snd (on_rejected env td ps img thrown s2))"
          "failure_part td img F" "fs = [] \<or> fs = [img]"
        using on_rejected_effect[of s2 env td ps img thrown] by blast
      have "extends s (pre @ [Submitted img (axiosInstance td) (url td) fd] @ S @ F) fs
              (snd (settle env td ps img s))"
        using extends_trans[OF e2 rej(1)] Inl Inr by (simp add: unfold s2_def)
      moreover have "\<not> never_throws env" using ful(3) Inl by auto
      ultimately show ?thesis using pre ful(2) rej(2,3) by blast
    next
      case (Inr v)
      have "extends s (pre @ [Submitted img (axiosInstance td) (url td) fd] @ S @ []) []
              (snd (settle env td ps img s))"
        using e2 Inr \<open>r = Inr resp\<close> by (simp add: unfold s2_def)
      moreover have "failure_part td img []" by (simp add: failure_part_def)
      moreover have "never_throws env \<longrightarrow> onSuccess td \<noteq> None \<longrightarrow> length (S @ []) = 1"
        using ful(3) by simp
      ultimately show ?thesis using pre ful(2) by blast
    qed
  qed
qed

section \<open>What the passes maintain\<close>

subsection \<open>Counting\<close>

lemma occurrences_simps [simp]:
  "occurrences p [] = 0"
  "occurrences p (x # xs) = (if photoId x = p then 1 else 0) + occurrences p xs"
  "occurrences p (xs @ ys) = occurrences p xs + occurrences p ys"
  by (simp_all add: occurrences_def)

lemma submissions_simps [simp]:
  "submissions p [] = 0"
  "submissions p (e # tr) = (if is_submission p e then 1 else 0) + submissions p tr"
  "submissions p (tr @ tr') = submissions p tr + submissions p tr'"
  by (simp_all add: submissions_def)

lemma item_callbacks_simps [simp]:
  "item_callbacks p [] = 0"
  "item_callbacks p (e # tr) = (if is_item_callback p e then 1 else 0) + item_callbacks p tr"
  "item_callbacks p (tr @ tr') = item_callbacks p tr + item_callbacks p tr'"
  by (simp_all add: item_callbacks_def)

lemma service_ends_simps [simp]:
  "service_ends [] = 0"
  "service_ends (e # tr) = (if is_service_end e then 1 else 0) + service_ends tr"
  "service_ends (tr @ tr') = service_ends tr + service_ends tr'"
  by (simp_all add: service_ends_def)

lemma rounds_simps [simp]:
  "rounds [] = 0"
  "rounds (l # ls) = (if is_retrying l then 1 else 0) + rounds ls"
  "rounds (ls @ ls') = rounds ls + rounds ls'"
  by (simp_all add: rounds_def)

subsection \<open>One settled item and the relations\<close>

lemma transform_part_counts:
  assumes "transform_part td img evs"
  shows "submissions p evs = 0" "item_callbacks p evs = 0" "service_ends evs = 0"
    "list_all (conforms td) evs"
  using assms by (auto simp: transform_part_def split: if_splits)

lemma map_of_with_photoId [simp]:
  "map_of (with_photoId payload q) ''photoId'' = Some (JStr q)"
  by (simp add: with_photoId_def update_conv')

lemma success_part_counts:
  assumes "success_part td img evs"
  shows "submissions p evs = 0" "service_ends evs = 0" "list_all (conforms td) evs"
    "item_callbacks p evs = (if photoId img = p then length evs else 0)"
  using assms by (auto simp: success_part_def)

lemma failure_part_counts:
  assumes "failure_part td img evs"
  shows "submissions p evs = 0" "service_ends evs = 0" "list_all (conforms td) evs"
    "item_callbacks p evs = (if photoId img = p then length evs else 0)"
  using assms by (auto simp: failure_part_def)

lemma attempts_settle: "attempts env p [img] s (snd (settle env td ps img s))"
proof -
  obtain pre fd S F fs where e:
    "extends s (pre @ [Submitted img (axiosInstance td) (url td) fd] @ S @ F) fs (snd (settle env td ps img s))"
    "transform_part td img pre" "success_part td img S" "failure_part td img F" "fs = [] \<or> fs = [img]"
    using settle_effect[of s img td env ps] by blast
  show ?thesis
    using e(1,5) transform_part_counts(1)[OF e(2), of p] success_part_counts(1)[OF e(3), of p]
      failure_part_counts(1)[OF e(4), of p]
    by (auto simp: attempts_def extends_def)
qed

lemma paired_settle:
  assumes "never_throws env" "onSuccess td \<noteq> None" "onFailure td \<noteq> None"
  shows "paired p s (snd (settle env td ps img s))"
proof -
  obtain pre fd S F fs where e:
    "extends s (pre @ [Submitted img (axiosInstance td) (url td) fd] @ S @ F) fs (snd (settle env td ps img s))"
    "transform_part td img pre" "success_part td img S" "failure_part td img F"
    "length (S @ F) = 1"
    using settle_effect[of s img td env ps] assms by blast
  show ?thesis
    using e(1,5) transform_part_counts(1,2)[OF e(2), of p] success_part_counts(1,4)[OF e(3), of p]
      failure_part_counts(1,4)[OF e(4), of p]
    by (auto simp: paired_def extends_def)
qed


lemma conforming_settle: "conforming td s (snd (settle env td ps img s))"
proof -
  obtain pre fd S F fs where e:
    "extends s (pre @ [Submitted img (axiosInstance td) (url td) fd] @ S @ F) fs (snd (settle env td ps img s))"
    "transform_part td img pre" "success_part td img S" "failure_part td img F"
    using settle_effect[of s img td env ps] by blast
  show ?thesis
    using e(1) transform_part_counts(4)[OF e(2)] success_part_counts(3)[OF e(3)]
      failure_part_counts(3)[OF e(4)]
    by (auto simp: conforming_def extends_def)
qed


subsection \<open>The other steps of a batch\<close>

lemma foldl_enqueue_queue:
  "occurrences p (queuedImages (foldl (\<lambda>s req. enqueue req s) s reqs)) =
     occurrences p (queuedImages s) +
     sum_list (map (\<lambda>req. occurrences p (opt_images (uploadOptions req))) reqs)"
  by (induction reqs arbitrary: s) (simp_all add: enqueue_def)

lemma foldl_enqueue_rest:
  "failedImages (foldl (\<lambda>s req. enqueue req s) s reqs) = failedImages s"
  "trace (foldl (\<lambda>s req. enqueue req s) s reqs) = trace s"
  "console (foldl (\<lambda>s req. enqueue req s) s reqs) = console s"
  "isRunning (foldl (\<lambda>s req. enqueue req s) s reqs) = isRunning s"
  "clock (foldl (\<lambda>s req. enqueue req s) s reqs) = clock s"
  by (induction reqs arbitrary: s) (simp_all add: enqueue_def)

lemma quiet_arrivals:
  "quiet env p \<Longrightarrow>
   sum_list (map (\<lambda>req. occurrences p (opt_images (uploadOptions req))) (arrivals env k)) = 0"
  by (simp add: quiet_def)

lemma attempts_suspend: "attempts env p [] s (suspend env s)"
  by (simp add: attempts_def suspend_def foldl_enqueue_queue foldl_enqueue_rest quiet_arrivals)

lemma attempts_report: "attempts env p [] s (snd (invoke env' cbo (\<lambda>cb. BatchCompleteCb cb res k) s))"
  by (simp add: attempts_def invoke_def split: option.splits)

lemma attempts_console: "attempts env p [] s (s\<lparr>console := console s @ [ErrorUploadingBatch e]\<rparr>)"
  by (simp add: attempts_def)

lemma attempts_refl: "attempts env p [] s s"
  by (simp add: attempts_def)

lemma attempts_trans:
  "attempts env p xs s s' \<Longrightarrow> attempts env p ys s' s'' \<Longrightarrow> attempts env p (xs @ ys) s s''"
  by (auto simp: attempts_def)

lemma pass_attempts:
  assumes "0 < batchSize td"
  shows "\<exists>st'. batch_loop env td ps xs 0 st = Some st' \<and> attempts env p xs st st'"
  by (rule pass_rule[of td "attempts env p", OF assms attempts_settle attempts_suspend
        attempts_report attempts_console attempts_refl attempts_trans])

lemma paired_refl: "paired p s s"
  by (simp add: paired_def)

lemma paired_trans: "paired p s s' \<Longrightarrow> paired p s' s'' \<Longrightarrow> paired p s s''"
  by (simp add: paired_def)

lemma paired_same_trace: "trace s' = trace s \<Longrightarrow> paired p s s'"
  by (simp add: paired_def)

lemma paired_report: "paired p s (snd (invoke env cbo (\<lambda>cb. BatchCompleteCb cb res k) s))"
  by (simp add: paired_def invoke_def split: option.splits)

lemma pass_paired:
  assumes "0 < batchSize td" "never_throws env" "onSuccess td \<noteq> None" "onFailure td \<noteq> None"
  shows "\<exists>st'. batch_loop env td ps xs 0 st = Some st' \<and> paired p st st'"
proof (rule pass_rule[of td "\<lambda>xs. paired p", OF assms(1)])
  show "paired p s (snd (settle env td ps img s))" for img s
    by (rule paired_settle[OF assms(2,3,4)])
  show "paired p s (suspend env s)" for s
    by (rule paired_same_trace) (simp add: suspend_def foldl_enqueue_rest)
  show "paired p s (snd (invoke env (onBatchComplete td) (\<lambda>cb. BatchCompleteCb cb res k) s))" for s res k
    by (rule paired_report)
  show "paired p s (s\<lparr>console := console s @ [ErrorUploadingBatch e]\<rparr>)" for s e
    by (rule paired_same_trace) simp
  show "paired p s s" for s by (rule paired_refl)
  show "paired p s s' \<Longrightarrow> paired p s' s'' \<Longrightarrow> paired p s s''" for s s' s''
    by (rule paired_trans)
qed






lemma conforming_refl: "conforming td s s"
  by (simp add: conforming_def)

lemma conforming_trans: "conforming td s s' \<Longrightarrow> conforming td s' s'' \<Longrightarrow> conforming td s s''"
  by (auto simp: conforming_def)

lemma conforming_same_trace: "trace s' = trace s \<Longrightarrow> conforming td s s'"
  by (simp add: conforming_def)

lemma conforming_report:
  "conforming td s (snd (invoke env (onBatchComplete td) (\<lambda>cb. BatchCompleteCb cb res k) s))"
  by (simp add: conforming_def invoke_def split: option.splits)

lemma pass_conforming:
  assumes "0 < batchSize td"
  shows "\<exists>st'. batch_loop env td ps xs 0 st = Some st' \<and> conforming td st st'"
proof (rule pass_rule[of td "\<lambda>xs. conforming td", OF assms])
  show "conforming td s (snd (settle env td ps img s))" for img s
    by (rule conforming_settle)
  show "conforming td s (suspend env s)" for s
    by (rule conforming_same_trace) (simp add: suspend_def foldl_enqueue_rest)
  show "conforming td s (snd (invoke env (onBatchComplete td) (\<lambda>cb. BatchCompleteCb cb res k) s))" for s res k
    by (rule conforming_report)
  show "conforming td s (s\<lparr>console := console s @ [ErrorUploadingBatch e]\<rparr>)" for s e
    by (rule conforming_same_trace) simp
  show "conforming td s s" for s by (rule conforming_refl)
  show "conforming td s s' \<Longrightarrow> conforming td s' s'' \<Longrightarrow> conforming td s s''" for s s' s''
    by (rule conforming_trans)
qed

subsection \<open>The three phases of the task\<close>

lemma uploadTask_unfold:
  assumes "batch_loop env td Primary (images td) 0 st = Some st1"
    and "drain_queue env td st1 = Some st2"
    and "retry_failed env td st2 = Some st3"
  shows "uploadTask env (Some td) st = Some (stop_service env td st3)"
  using assms by (simp add: uploadTask_def)

lemma phases_rule:
  assumes pos: "0 < batchSize td"
    and pass: "\<And>ps xs s s'. batch_loop env td ps xs 0 s = Some s' \<Longrightarrow> G s s'"
    and refl: "\<And>s. G s s"
    and trans: "\<And>s s' s''. G s s' \<Longrightarrow> G s' s'' \<Longrightarrow> G s s''"
    and unq: "\<And>s. G s (s\<lparr>queuedImages := []\<rparr>)"
    and unf: "\<And>s k. G s (s\<lparr>failedImages := [], console := console s @ [Retrying k]\<rparr>)"
  shows "\<exists>st1 st2 st3. batch_loop env td Primary (images td) 0 st = Some st1 \<and>
           drain_queue env td st1 = Some st2 \<and> retry_failed env td st2 = Some st3 \<and>
           G st st1 \<and> G st1 st2 \<and> G st2 st3"
proof -
  obtain st1 where 1: "batch_loop env td Primary (images td) 0 st = Some st1"
    using batch_loop_total[OF pos] by blast
  have g1: "G st st1" by (rule pass[OF 1])
  obtain st2 where 2: "drain_queue env td st1 = Some st2"
    using batch_loop_total[OF pos] by (fastforce simp: drain_queue_def)
  have g2: "G st1 st2"
  proof (cases "queuedImages st1 = []")
    case True
    then show ?thesis using 2 refl by (simp add: drain_queue_def)
  next
    case False
    then have "batch_loop env td Drain (queuedImages st1) 0 (st1\<lparr>queuedImages := []\<rparr>) = Some st2"
      using 2 by (simp add: drain_queue_def)
    from trans[OF unq pass[OF this]] show ?thesis .
  qed
  have "\<exists>k' st3. retry_loop env td 0 st2 = Some st3 \<and> G st2 st3 \<and> 0 \<le> k' \<and>
           (failedImages st3 = [] \<or> maxRetries td \<le> k')"
  proof (rule retry_loop_rule[of td "\<lambda>k. G st2", OF pos refl])
    fix k s s'
    assume "G st2 s"
      and "batch_loop env td (Retry k) (failedImages s) 0
             (s\<lparr>failedImages := [], console := console s @ [Retrying (k + 1)]\<rparr>) = Some s'"
    then show "G st2 s'" using trans[OF _ trans[OF unf pass]] by blast
  qed
  then obtain st3 where 3: "retry_failed env td st2 = Some st3" and g3: "G st2 st3"
    using refl by (cases "failedImages st2 = []") (auto simp: retry_failed_def)
  show ?thesis using 1 2 3 g1 g2 g3 by blast
qed


lemma drain_attempts:
  assumes pos: "0 < batchSize td"
  shows "\<exists>st2. drain_queue env td st1 = Some st2 \<and>
           submissions p (trace st2) = submissions p (trace st1) + occurrences p (queuedImages st1) \<and>
           occurrences p (failedImages st2) \<le>
             occurrences p (failedImages st1) + occurrences p (queuedImages st1) \<and>
           rounds (console st2) = rounds (console st1)"
proof (cases "queuedImages st1 = []")
  case True
  then show ?thesis by (simp add: drain_queue_def)
next
  case False
  obtain st2 where "batch_loop env td Drain (queuedImages st1) 0 (st1\<lparr>queuedImages := []\<rparr>) = Some st2"
      and "attempts env p (queuedImages st1) (st1\<lparr>queuedImages := []\<rparr>) st2"
    using pass_attempts[OF pos] by blast
  then show ?thesis using False by (simp add: drain_queue_def attempts_def)
qed

subsection \<open>The end of the task and the report of a batch\<close>

lemma stop_service_effect:
  "trace (snd (stop_service env td s)) =
     trace s @ ServiceStopped #
       (if platformIOS env then (case onServiceEnd td of None \<Rightarrow> [] | Some cb \<Rightarrow> [ServiceEndCb cb])
        else [])"
  "\<not> isRunning (snd (stop_service env td s))"
  "fst (stop_service env td s) = Inr () \<Longrightarrow>
     queuedImages (snd (stop_service env td s)) = [] \<and> failedImages (snd (stop_service env td s)) = []"
  "rounds (console (snd (stop_service env td s))) = rounds (console s)"
  "never_throws env \<Longrightarrow> fst (stop_service env td s) = Inr ()"
  by (auto simp: stop_service_def invoke_def Let_def never_throws_def split: option.splits)

lemma stop_service_counts:
  "submissions p (trace (snd (stop_service env td s))) = submissions p (trace s)"
  "item_callbacks p (trace (snd (stop_service env td s))) = item_callbacks p (trace s)"
  by (simp_all add: stop_service_effect(1) split: option.splits)

lemma batch_step_reports:
  "onBatchComplete td = Some cb \<Longrightarrow>
   last (trace (batch_step env td ps batch k s)) =
     BatchCompleteCb cb (fst (allSettled env td ps batch (suspend env s))) k"
  by (simp add: batch_step_def invoke_def Let_def case_prod_beta split: option.splits)

section \<open>Running the model on sample data\<close>

text \<open>The defining equations that a run on concrete data unfolds.\<close>

lemmas run_defs = uploadTask_def batch_loop.simps retry_loop.simps drain_queue_def
  retry_failed_def stop_service_def batch_step_def suspend_def enqueue_def settle_def on_rejected_def
  on_fulfilled_def uploadImage_def compressImage_def invoke_def slice_def slice_index_def Let_def
  formData_def or_default_def getError_def error_message_def with_photoId_def
  nullish_data_def nullish_status_def

lemmas sample_defs = sample_task_def sample_image_def sample_request_def busy_def idle_def
  offline_def online_def network_error_def ok_response_def

section \<open>Error classification\<close>

text \<open>
  C5, as the code has it. \<open>getError\<close> is a function of the error alone: it reads and
  writes no state. An error with a response whose body is present and not \<open>null\<close> and
  whose status is present becomes \<open>{error: body, status: code}\<close>; a missing or \<open>null\<close>
  body is replaced by the empty object and a missing status by \<open>0\<close>; an error without a
  response is returned unchanged.
\<close>

theorem getError_classification:
  "(\<forall>r body code. response error = Some r \<and> err_data r = Some body \<and> body \<noteq> JNull \<and>
        err_status r = Some code \<longrightarrow> getError error = ErrorResponse body code) \<and>
   (\<forall>r. response error = Some r \<and> (err_data r = None \<or> err_data r = Some JNull) \<longrightarrow>
        getError error = ErrorResponse (JObj []) (nullish_status (err_status r))) \<and>
   (\<forall>r. response error = Some r \<and> err_status r = None \<longrightarrow>
        getError error = ErrorResponse (nullish_data (err_data r)) 0) \<and>
   (response error = None \<longrightarrow> getError error = RawError error)"
  by (auto simp: getError_def nullish_data_def nullish_status_def split: option.splits json.splits)

theorem getError_classification_witness:
  "getError server_error = ErrorResponse (JStr ''busy'') 503 \<and>
   getError null_body_error = ErrorResponse (JObj []) 500 \<and>
   getError network_error = RawError network_error"
  using getError_classification [of server_error] getError_classification [of null_body_error]
    getError_classification [of network_error]
  by (simp add: server_error_def null_body_error_def network_error_def nullish_status_def)

text \<open>
  C5 as stated fails for a response with the body \<open>null\<close> and the status 500: the result is
  neither \<open>{error: null, status: 500}\<close> nor the error itself.
\<close>

theorem getError_null_body_counterexample:
  "\<not> (getError null_body_error = ErrorResponse JNull 500 \<or>
      getError null_body_error = RawError null_body_error)"
  by (simp add: getError_def null_body_error_def nullish_data_def nullish_status_def)

section \<open>The single-flight guard\<close>

text \<open>
  C3. A call of \<open>startBackgroundUpload\<close> made while the service is running returns at
  once and changes nothing but the pending queue, to which it appends the items of the
  request: the log, the failure set, the clock and the console stay as they were, so no
  batch pass has begun and the items are to be seen in the queue only.
\<close>

theorem single_flight:
  "isRunning st \<Longrightarrow>
   startBackgroundUpload env req st =
     Some (Inr (), st\<lparr>queuedImages := queuedImages st @ opt_images (uploadOptions req)\<rparr>)"
  by (simp add: startBackgroundUpload_def enqueue_def)

theorem single_flight_witness:
  "isRunning busy \<and>
   startBackgroundUpload online (sample_request [sample_image ''b'', sample_image ''c'']) busy =
     Some (Inr (), busy\<lparr>queuedImages := [sample_image ''b'', sample_image ''c'']\<rparr>)"
  using single_flight [of busy online "sample_request [sample_image ''b'', sample_image ''c'']"]
  by (simp add: busy_def idle_def sample_request_def)

section \<open>The transform step\<close>

text \<open>
  C4. Without the flag \<open>uploadImage\<close> does not call the compressor: the one thing it adds
  to the log is the submission, of the original uri. With the flag, a compressor that fails,
  with whatever error, is followed by the submission of the original uri, and the outcome of
  \<open>uploadImage\<close> is the outcome of the transport, not the error of the compressor.
\<close>

theorem transform_fallback:
  "(\<not> compression \<longrightarrow>
      trace (snd (uploadImage env img endpoint compression ax st)) =
        trace st @ [Submitted img ax endpoint (formData img (uri img))]) \<and>
   (\<forall>e. compression \<and> compress env (clock st) (uri img) = Inl e \<longrightarrow>
      trace (snd (uploadImage env img endpoint compression ax st)) =
        trace st @ [Compressed (uri img), Submitted img ax endpoint (formData img (uri img))] \<and>
      fst (uploadImage env img endpoint compression ax st) =
        post env (clock st + 1) ax endpoint (formData img (uri img)))"
  by (auto simp: uploadImage_def compressImage_def Let_def)

theorem transform_fallback_witness:
  "trace (snd (uploadImage offline (sample_image ''a'') ''https://host/upload'' False 7 idle)) =
     [Submitted (sample_image ''a'') 7 ''https://host/upload''
        (formData (sample_image ''a'') (uri (sample_image ''a'')))] \<and>
   compress offline (clock idle) (uri (sample_image ''a'')) = Inl network_error \<and>
   trace (snd (uploadImage offline (sample_image ''a'') ''https://host/upload'' True 7 idle)) =
     [Compressed (uri (sample_image ''a'')),
      Submitted (sample_image ''a'') 7 ''https://host/upload''
        (formData (sample_image ''a'') (uri (sample_image ''a'')))] \<and>
   fst (uploadImage offline (sample_image ''a'') ''https://host/upload'' True 7 idle) = Inl network_error"
  using transform_fallback [of False offline "sample_image ''a''" "''https://host/upload''" 7 idle]
    transform_fallback [of True offline "sample_image ''a''" "''https://host/upload''" 7 idle]
  by (simp add: offline_def idle_def)

section \<open>Batches\<close>

lemma concat_batches:
  assumes "0 < b"
  shows "concat (map (batch_of b xs) [j..<batch_count b (length xs)]) = drop (j * b) xs"
proof (induction "batch_count b (length xs) - j" arbitrary: j)
  case 0
  then have stop: "\<not> j < batch_count b (length xs)" by simp
  then have "\<not> j * b < length xs"
    using batch_bound[OF assms, of j "length xs"] by (simp add: batch_count_def)
  then show ?case using stop by simp
next
  case (Suc m)
  then have lt: "j < batch_count b (length xs)" by simp
  have m: "m = batch_count b (length xs) - Suc j" using Suc(2) by simp
  have "drop (j * b) xs = batch_of b xs j @ drop (Suc j * b) xs"
    by (simp add: batch_of_def flip: drop_drop)
  then show ?case using Suc(1)[OF m] lt by (simp add: upt_conv_Cons)
qed

lemma batch_sizes:
  assumes "0 < b" and "k < batch_count b (length xs)"
  shows "batch_of b xs k \<noteq> []" and "length (batch_of b xs k) \<le> b"
    and "Suc k < batch_count b (length xs) \<Longrightarrow> length (batch_of b xs k) = b"
proof -
  have "k * b < length xs"
    using batch_bound[OF assms(1), of k "length xs"] assms(2) by (simp add: batch_count_def)
  then show "batch_of b xs k \<noteq> []" using assms(1) by (simp add: batch_of_def)
  show "length (batch_of b xs k) \<le> b" by (simp add: batch_of_def)
  assume "Suc k < batch_count b (length xs)"
  then have "Suc k * b < length xs"
    using batch_bound[OF assms(1), of "Suc k" "length xs"] by (simp add: batch_count_def)
  then show "length (batch_of b xs k) = b" by (simp add: batch_of_def)
qed

text \<open>
  C1. For a positive batch size \<open>b\<close> the loop over a list \<open>xs\<close> ends, and it is the
  batch step applied in turn at the offsets \<open>0, b, 2b, ...\<close>, as many as the ceiling of
  \<open>length xs / b\<close>. The batch at offset \<open>i\<close> holds the \<open>b\<close> items from \<open>i\<close> on (fewer
  at the end of the list) and is given the index \<open>floor (i / b) + 1\<close>. The batches
  concatenated are \<open>xs\<close>; none is empty, none is longer than \<open>b\<close>, and all but the last
  have length \<open>b\<close>. The batch step hands its index to \<open>onBatchComplete\<close>.
\<close>

theorem batch_partition:
  assumes "batchSize td = int b" and "0 < b"
  shows "batch_loop env td ps xs 0 st =
           Some (foldl (\<lambda>s i. batch_step env td ps (take b (drop i xs)) (int i div batchSize td + 1) s) st
                   (map (\<lambda>k. k * b) [0..<nat \<lceil>real (length xs) / real b\<rceil>])) \<and>
         concat (map (\<lambda>k. take b (drop (k * b) xs)) [0..<nat \<lceil>real (length xs) / real b\<rceil>]) = xs \<and>
         (\<forall>k < nat \<lceil>real (length xs) / real b\<rceil>.
            take b (drop (k * b) xs) \<noteq> [] \<and> length (take b (drop (k * b) xs)) \<le> b \<and>
            (Suc k < nat \<lceil>real (length xs) / real b\<rceil> \<longrightarrow> length (take b (drop (k * b) xs)) = b)) \<and>
         (\<forall>cb batch k s. onBatchComplete td = Some cb \<longrightarrow>
            last (trace (batch_step env td ps batch k s)) =
              BatchCompleteCb cb (fst (allSettled env td ps batch (suspend env s))) k)"
proof -
  have count: "nat \<lceil>real (length xs) / real b\<rceil> = batch_count b (length xs)"
    using batch_count_ceiling[OF assms(2), of "length xs"] by (simp add: batch_count_def)
  have idx: "int (k * b) div batchSize td + 1 = int k + 1" for k
    using assms by (simp flip: of_nat_div del: of_nat_mult)
  have "batch_loop env td ps xs 0 st =
          Some (foldl (\<lambda>s k. batch_step env td ps (batch_of b xs k) (int k + 1) s) st
                  [0..<batch_count b (length xs)])"
    using batch_loop_unroll[OF assms, of env ps xs 0 st] by simp
  then have 1: "batch_loop env td ps xs 0 st =
           Some (foldl (\<lambda>s i. batch_step env td ps (take b (drop i xs)) (int i div batchSize td + 1) s) st
                   (map (\<lambda>k. k * b) [0..<nat \<lceil>real (length xs) / real b\<rceil>]))"
    by (simp only: count foldl_map idx batch_of_def)
  have 2: "concat (map (\<lambda>k. take b (drop (k * b) xs)) [0..<nat \<lceil>real (length xs) / real b\<rceil>]) = xs"
    using concat_batches[OF assms(2), of xs 0] by (simp add: count batch_of_def[abs_def])
  have 3: "\<forall>k < nat \<lceil>real (length xs) / real b\<rceil>.
            take b (drop (k * b) xs) \<noteq> [] \<and> length (take b (drop (k * b) xs)) \<le> b \<and>
            (Suc k < nat \<lceil>real (length xs) / real b\<rceil> \<longrightarrow> length (take b (drop (k * b) xs)) = b)"
    unfolding count using batch_sizes[OF assms(2), of _ xs] by (simp add: batch_of_def)
  show ?thesis using 1 2 3 batch_step_reports by blast
qed

theorem batch_partition_witness:
  "batchSize (sample_task [] 2 0) = int 2 \<and> (0::nat) < 2 \<and>
   batch_loop online (sample_task [] 2 0) Primary [sample_image ''a'', sample_image ''b'', sample_image ''c''] 0 busy =
     Some (batch_step online (sample_task [] 2 0) Primary [sample_image ''c''] 2
            (batch_step online (sample_task [] 2 0) Primary [sample_image ''a'', sample_image ''b''] 1 busy)) \<and>
   onBatchComplete (sample_task [] 2 0) = Some 3 \<and>
   last (trace (batch_step online (sample_task [] 2 0) Primary [sample_image ''c''] 2 busy)) =
     BatchCompleteCb 3 (fst (allSettled online (sample_task [] 2 0) Primary [sample_image ''c'']
                               (suspend online busy))) 2"
  using batch_partition [of "sample_task [] 2 0" 2 online Primary
      "[sample_image ''a'', sample_image ''b'', sample_image ''c'']" busy]
  by (simp add: sample_task_def upt_conv_Cons)

section \<open>The retry loop\<close>

lemma retry_attempts:
  assumes pos: "0 < batchSize td"
  shows "\<exists>st3. retry_failed env td st2 = Some st3 \<and>
           submissions p (trace st3) \<le>
             submissions p (trace st2) + nat (maxRetries td) * occurrences p (failedImages st2) \<and>
           rounds (console st3) \<le> rounds (console st2) + nat (maxRetries td) \<and>
           (failedImages st3 = [] \<or>
            rounds (console st3) = rounds (console st2) + nat (maxRetries td))"
proof (cases "failedImages st2 = []")
  case True
  then show ?thesis by (simp add: retry_failed_def)
next
  case False
  define N where "N = maxRetries td"
  define B where "B = submissions p (trace st2) + nat N * occurrences p (failedImages st2)"
  define J where "J = (\<lambda>k (s::state). 0 \<le> (k::int) \<and> k \<le> max 0 N \<and>
      submissions p (trace s) + nat (N - k) * occurrences p (failedImages s) \<le> B \<and>
      rounds (console s) = rounds (console st2) + nat k)"
  have init: "J 0 st2" by (simp add: J_def B_def)
  have round: "J (k + 1) s'"
    if J: "J k s" and lt: "k < maxRetries td"
      and loop: "batch_loop env td (Retry k) (failedImages s) 0
             (s\<lparr>failedImages := [], console := console s @ [Retrying (k + 1)]\<rparr>) = Some s'"
    for k s s'
  proof -
    have "attempts env p (failedImages s)
            (s\<lparr>failedImages := [], console := console s @ [Retrying (k + 1)]\<rparr>) s'"
      using pass_attempts[OF pos, of env "Retry k" "failedImages s"
          "s\<lparr>failedImages := [], console := console s @ [Retrying (k + 1)]\<rparr>" p] loop by auto
    then have subs: "submissions p (trace s') = submissions p (trace s) + occurrences p (failedImages s)"
      and fail: "occurrences p (failedImages s') \<le> occurrences p (failedImages s)"
      and rnd: "rounds (console s') = rounds (console s) + 1"
      by (simp_all add: attempts_def)
    define m where "m = nat (N - (k + 1))"
    have n: "nat (N - k) = Suc m" using lt J by (simp add: m_def N_def J_def)
    have "m * occurrences p (failedImages s') \<le> m * occurrences p (failedImages s)"
      using fail by (rule mult_le_mono2)
    then have "submissions p (trace s') + m * occurrences p (failedImages s') \<le>
               submissions p (trace s) + Suc m * occurrences p (failedImages s)"
      using subs by simp
    also have "\<dots> \<le> B" using J by (simp add: J_def n)
    finally show ?thesis using J lt rnd by (simp add: J_def m_def N_def nat_add_distrib)
  qed
  obtain k' st3 where r: "retry_loop env td 0 st2 = Some st3" "J k' st3"
      "failedImages st3 = [] \<or> maxRetries td \<le> k'"
    using retry_loop_rule[of td J 0 st2 env, OF pos init] round by blast
  have "submissions p (trace st3) \<le> B" using r(2) by (simp add: J_def)
  moreover have "rounds (console st3) \<le> rounds (console st2) + nat N"
    using r(2) by (auto simp: J_def)
  moreover have "failedImages st3 = [] \<or> rounds (console st3) = rounds (console st2) + nat N"
    using r(2,3) by (auto simp: J_def N_def max_def split: if_splits)
  ultimately show ?thesis using r(1) False by (simp add: retry_failed_def B_def N_def)
qed

text \<open>
  C2. Take a positive batch size and an identifier \<open>p\<close> that no request arriving during
  the run carries. The task returns, and the transport is called for \<open>p\<close> at most
  \<open>1 + maxRetries\<close> times for each occurrence of \<open>p\<close> in the list of the run and in the
  pending queue, and at most \<open>maxRetries\<close> times for each occurrence left in the failure
  set by an earlier run: no more than \<open>maxRetries\<close> submissions follow the first failure
  of an item. No more than \<open>maxRetries\<close> retry rounds are announced, and the failure set
  is empty when the task has run to its end. The retry block itself ends with an empty
  failure set or after exactly \<open>maxRetries\<close> rounds (none when that number is negative).
  A round starts from the emptied failure set, submits each item of its snapshot once, and
  leaves in the failure set no more occurrences of \<open>p\<close> than the snapshot had.
\<close>

theorem retry_bound:
  assumes "0 < batchSize td"
    and "\<forall>k. \<forall>req \<in> set (arrivals env k). occurrences p (opt_images (uploadOptions req)) = 0"
  shows "\<exists>r st'. uploadTask env (Some td) st = Some (r, st') \<and>
           submissions p (trace st') \<le>
             submissions p (trace st) +
             (1 + nat (maxRetries td)) * (occurrences p (images td) + occurrences p (queuedImages st)) +
             nat (maxRetries td) * occurrences p (failedImages st) \<and>
           rounds (console st') \<le> rounds (console st) + nat (maxRetries td) \<and>
           (r = Inr () \<longrightarrow> failedImages st' = []) \<and>
           (\<forall>s. \<exists>s'. retry_failed env td s = Some s' \<and>
              (failedImages s' = [] \<or> rounds (console s') = rounds (console s) + nat (maxRetries td))) \<and>
           (\<forall>k s. \<exists>s'. batch_loop env td (Retry k) (failedImages s) 0
                (s\<lparr>failedImages := [], console := console s @ [Retrying (k + 1)]\<rparr>) = Some s' \<and>
              submissions p (trace s') = submissions p (trace s) + occurrences p (failedImages s) \<and>
              occurrences p (failedImages s') \<le> occurrences p (failedImages s))"
proof -
  have quiet: "quiet env p" using assms(2) by (simp add: quiet_def)
  have round: "\<exists>s'. batch_loop env td (Retry k) (failedImages s) 0
                (s\<lparr>failedImages := [], console := console s @ [Retrying (k + 1)]\<rparr>) = Some s' \<and>
              submissions p (trace s') = submissions p (trace s) + occurrences p (failedImages s) \<and>
              occurrences p (failedImages s') \<le> occurrences p (failedImages s)" for k s
    using pass_attempts[OF assms(1), of env "Retry k" "failedImages s"
        "s\<lparr>failedImages := [], console := console s @ [Retrying (k + 1)]\<rparr>" p]
    by (auto simp: attempts_def)
  define N where "N = nat (maxRetries td)"
  obtain st1 where 1: "batch_loop env td Primary (images td) 0 st = Some st1"
      and a1: "attempts env p (images td) st st1"
    using pass_attempts[OF assms(1)] by blast
  obtain st2 where 2: "drain_queue env td st1 = Some st2"
      and s2: "submissions p (trace st2) = submissions p (trace st1) + occurrences p (queuedImages st1)"
      and f2: "occurrences p (failedImages st2) \<le>
                 occurrences p (failedImages st1) + occurrences p (queuedImages st1)"
      and r2: "rounds (console st2) = rounds (console st1)"
    using drain_attempts[OF assms(1)] by blast
  obtain st3 where 3: "retry_failed env td st2 = Some st3"
      and s3: "submissions p (trace st3) \<le> submissions p (trace st2) + N * occurrences p (failedImages st2)"
      and r3: "rounds (console st3) \<le> rounds (console st2) + N"
    using retry_attempts[OF assms(1)] unfolding N_def by blast
  have run: "uploadTask env (Some td) st = Some (stop_service env td st3)"
    by (rule uploadTask_unfold[OF 1 2 3])
  define i where "i = occurrences p (images td)"
  define q where "q = occurrences p (queuedImages st)"
  define f where "f = occurrences p (failedImages st)"
  have q1: "occurrences p (queuedImages st1) = q" using a1 quiet by (simp add: attempts_def q_def)
  have "occurrences p (failedImages st2) \<le> f + i + q"
    using f2 a1 q1 by (simp add: attempts_def f_def i_def)
  then have "N * occurrences p (failedImages st2) \<le> N * (f + i + q)" by (rule mult_le_mono2)
  moreover have "submissions p (trace st2) = submissions p (trace st) + i + q"
    using s2 a1 q1 by (simp add: attempts_def i_def)
  ultimately have "submissions p (trace st3) \<le> submissions p (trace st) + (1 + N) * (i + q) + N * f"
    using s3 by (simp add: algebra_simps)
  moreover have "rounds (console st3) \<le> rounds (console st) + N"
    using r3 r2 a1 by (simp add: attempts_def)
  ultimately have "\<exists>r st'. uploadTask env (Some td) st = Some (r, st') \<and>
           submissions p (trace st') \<le>
             submissions p (trace st) +
             (1 + nat (maxRetries td)) * (occurrences p (images td) + occurrences p (queuedImages st)) +
             nat (maxRetries td) * occurrences p (failedImages st) \<and>
           rounds (console st') \<le> rounds (console st) + nat (maxRetries td) \<and>
           (r = Inr () \<longrightarrow> failedImages st' = [])"
    using run stop_service_counts(1)[of p env td st3] stop_service_effect(3,4)[of env td st3]
    by (cases "stop_service env td st3") (auto simp: i_def q_def f_def N_def)
  moreover have "\<forall>s. \<exists>s'. retry_failed env td s = Some s' \<and>
      (failedImages s' = [] \<or> rounds (console s') = rounds (console s) + nat (maxRetries td))"
    using retry_attempts[OF assms(1), of env _ p] by blast
  ultimately show ?thesis using round by blast
qed

text \<open>
  Two items, a transport that always fails and \<open>maxRetries = 2\<close>: each item is submitted
  three times, in the primary pass and in two retry rounds, and the failure set is empty
  at the end.
\<close>

theorem retry_bound_witness:
  "0 < batchSize (sample_task [sample_image ''a'', sample_image ''b''] 10 2) \<and>
   (\<exists>r st'. uploadTask offline (Some (sample_task [sample_image ''a'', sample_image ''b''] 10 2)) busy =
        Some (r, st') \<and>
      submissions ''a'' (trace st') \<le> 3 \<and> rounds (console st') \<le> 2) \<and>
   map_option (submissions ''a'' \<circ> trace \<circ> snd)
     (uploadTask offline (Some (sample_task [sample_image ''a'', sample_image ''b''] 10 2)) busy) = Some 3 \<and>
   map_option (rounds \<circ> console \<circ> snd)
     (uploadTask offline (Some (sample_task [sample_image ''a'', sample_image ''b''] 10 2)) busy) = Some 2 \<and>
   map_option (failedImages \<circ> snd)
     (uploadTask offline (Some (sample_task [sample_image ''a'', sample_image ''b''] 10 2)) busy) = Some []"
proof -
  have run: "map_option (submissions ''a'' \<circ> trace \<circ> snd)
     (uploadTask offline (Some (sample_task [sample_image ''a'', sample_image ''b''] 10 2)) busy) = Some 3 \<and>
   map_option (rounds \<circ> console \<circ> snd)
     (uploadTask offline (Some (sample_task [sample_image ''a'', sample_image ''b''] 10 2)) busy) = Some 2 \<and>
   map_option (failedImages \<circ> snd)
     (uploadTask offline (Some (sample_task [sample_image ''a'', sample_image ''b''] 10 2)) busy) = Some []"
    by (simp add: run_defs sample_defs)
  have pos: "0 < batchSize (sample_task [sample_image ''a'', sample_image ''b''] 10 2)"
    by (simp add: sample_task_def)
  have quiet: "\<forall>k. \<forall>req \<in> set (arrivals offline k).
      occurrences ''a'' (opt_images (uploadOptions req)) = 0"
    by (simp add: offline_def)
  have bound: "submissions ''a'' (trace busy) +
      (1 + nat (maxRetries (sample_task [sample_image ''a'', sample_image ''b''] 10 2))) *
        (occurrences ''a'' (images (sample_task [sample_image ''a'', sample_image ''b''] 10 2)) +
         occurrences ''a'' (queuedImages busy)) +
      nat (maxRetries (sample_task [sample_image ''a'', sample_image ''b''] 10 2)) *
        occurrences ''a'' (failedImages busy) = 3"
    by (simp add: sample_defs)
  have "\<exists>r st'. uploadTask offline (Some (sample_task [sample_image ''a'', sample_image ''b''] 10 2)) busy =
        Some (r, st') \<and>
      submissions ''a'' (trace st') \<le> 3 \<and> rounds (console st') \<le> 2"
    using retry_bound [OF pos quiet, of busy] unfolding bound
    by (elim exE conjE) (auto simp: busy_def idle_def sample_task_def)
  then show ?thesis using run pos by simp
qed

section \<open>Item callbacks\<close>

lemma pass_counted:
  assumes "0 < batchSize td" "never_throws env" "onSuccess td \<noteq> None" "onFailure td \<noteq> None"
    and "batch_loop env td ps xs 0 s = Some s'"
  shows "paired p s s' \<and> submissions p (trace s) \<le> submissions p (trace s')"
  using pass_paired[OF assms(1-4), of ps xs s p] pass_attempts[OF assms(1), of env ps xs s p] assms(5)
  by (auto simp: attempts_def)

text \<open>
  C6, as the code has it. Let the batch size be positive, both item callbacks be supplied
  and no callback throw. Then the task runs to its end, and for every identifier it makes
  as many item callbacks as submissions: one callback, of success or of failure, for each
  attempt. Every item of the run's list and every item that is in the pending queue when
  the primary pass ends, queued before the run or during that pass, is reported at least
  once; an item that fails and is retried is reported once more for each retry.
\<close>

theorem callback_per_attempt:
  assumes "0 < batchSize td" and "\<forall>k cb. throws env k cb = None"
    and "onSuccess td \<noteq> None" and "onFailure td \<noteq> None"
  shows "\<exists>st1 st'. batch_loop env td Primary (images td) 0 st = Some st1 \<and>
           uploadTask env (Some td) st = Some (Inr (), st') \<and>
           item_callbacks p (trace st') - item_callbacks p (trace st) =
             submissions p (trace st') - submissions p (trace st) \<and>
           occurrences p (queuedImages st) \<le> occurrences p (queuedImages st1) \<and>
           occurrences p (images td) + occurrences p (queuedImages st1) \<le>
             item_callbacks p (trace st') - item_callbacks p (trace st)"
proof -
  have nt: "never_throws env" using assms(2) by (simp add: never_throws_def)
  define G where "G = (\<lambda>(s::state) (s'::state).
      paired p s s' \<and> submissions p (trace s) \<le> submissions p (trace s'))"
  have "\<exists>st1 st2 st3. batch_loop env td Primary (images td) 0 st = Some st1 \<and>
           drain_queue env td st1 = Some st2 \<and> retry_failed env td st2 = Some st3 \<and>
           G st st1 \<and> G st1 st2 \<and> G st2 st3"
  proof (rule phases_rule[of td env G, OF assms(1)])
    show "G s s'" if "batch_loop env td ps xs 0 s = Some s'" for ps xs s s'
      unfolding G_def by (rule pass_counted[OF assms(1) nt assms(3,4) that])
    show "G s s" for s by (simp add: G_def paired_def)
    show "G s s''" if "G s s'" "G s' s''" for s s' s''
      using that by (auto simp: G_def paired_def)
    show "G s (s\<lparr>queuedImages := []\<rparr>)" for s by (simp add: G_def paired_def)
    show "G s (s\<lparr>failedImages := [], console := console s @ [Retrying k]\<rparr>)" for s k
      by (simp add: G_def paired_def)
  qed
  then obtain st1 st2 st3 where 1: "batch_loop env td Primary (images td) 0 st = Some st1"
      and 2: "drain_queue env td st1 = Some st2" and 3: "retry_failed env td st2 = Some st3"
      and g: "G st st1" "G st1 st2" "G st2 st3"
    by blast
  have a1: "attempts env p (images td) st st1"
    using pass_attempts[OF assms(1), of env Primary "images td" st p] 1 by auto
  have s2: "submissions p (trace st2) = submissions p (trace st1) + occurrences p (queuedImages st1)"
    using drain_attempts[OF assms(1), of env st1 p] 2 by auto
  have grow: "occurrences p (queuedImages st) \<le> occurrences p (queuedImages st1)"
    using a1 by (simp add: attempts_def)
  have low: "submissions p (trace st) + occurrences p (images td) + occurrences p (queuedImages st1)
               \<le> submissions p (trace st3)"
    using a1 s2 g(3) by (simp add: attempts_def G_def)
  have pair: "item_callbacks p (trace st3) + submissions p (trace st) =
                item_callbacks p (trace st) + submissions p (trace st3)"
    using g by (simp add: G_def paired_def)
  have run: "uploadTask env (Some td) st = Some (stop_service env td st3)"
    by (rule uploadTask_unfold[OF 1 2 3])
  have "fst (stop_service env td st3) = Inr ()" by (rule stop_service_effect(5)[OF nt])
  then have "stop_service env td st3 = (Inr (), snd (stop_service env td st3))"
    by (metis prod.collapse)
  then have "uploadTask env (Some td) st = Some (Inr (), snd (stop_service env td st3))"
    using run by simp
  moreover have "item_callbacks p (trace (snd (stop_service env td st3))) - item_callbacks p (trace st) =
      submissions p (trace (snd (stop_service env td st3))) - submissions p (trace st)"
    using low pair stop_service_counts[of p env td st3] by simp
  moreover have "occurrences p (images td) + occurrences p (queuedImages st1) \<le>
      item_callbacks p (trace (snd (stop_service env td st3))) - item_callbacks p (trace st)"
    using low pair stop_service_counts[of p env td st3] by simp
  ultimately show ?thesis using 1 grow by blast
qed


theorem callback_per_attempt_witness:
  "0 < batchSize (sample_task [sample_image ''a''] 10 1) \<and>
   (\<forall>k cb. throws offline k cb = None) \<and>
   (\<exists>st'. uploadTask offline (Some (sample_task [sample_image ''a''] 10 1)) busy = Some (Inr (), st') \<and>
      item_callbacks ''a'' (trace st') - item_callbacks ''a'' (trace busy) =
        submissions ''a'' (trace st') - submissions ''a'' (trace busy) \<and>
      1 \<le> item_callbacks ''a'' (trace st') - item_callbacks ''a'' (trace busy)) \<and>
   map_option (item_callbacks ''b'' \<circ> trace \<circ> snd)
     (uploadTask late_arrivals (Some (sample_task [sample_image ''a''] 10 1)) busy) = Some 1"
proof -
  have pos: "0 < batchSize (sample_task [sample_image ''a''] 10 1)"
    by (simp add: sample_task_def)
  have nt: "\<forall>k cb. throws offline k cb = None"
    by (simp add: offline_def)
  have cbs: "onSuccess (sample_task [sample_image ''a''] 10 1) \<noteq> None"
    "onFailure (sample_task [sample_image ''a''] 10 1) \<noteq> None"
    by (simp_all add: sample_task_def)
  have occ: "occurrences ''a'' (images (sample_task [sample_image ''a''] 10 1)) = 1"
    by (simp add: sample_defs)
  have arrived: "map_option (item_callbacks ''b'' \<circ> trace \<circ> snd)
     (uploadTask late_arrivals (Some (sample_task [sample_image ''a''] 10 1)) busy) = Some 1"
    by (simp add: run_defs sample_defs late_arrivals_def other_request_def)
  have "\<exists>st'. uploadTask offline (Some (sample_task [sample_image ''a''] 10 1)) busy = Some (Inr (), st') \<and>
      item_callbacks ''a'' (trace st') - item_callbacks ''a'' (trace busy) =
        submissions ''a'' (trace st') - submissions ''a'' (trace busy) \<and>
      1 \<le> item_callbacks ''a'' (trace st') - item_callbacks ''a'' (trace busy)"
    using callback_per_attempt [OF pos nt cbs, of busy "''a''"] unfolding occ by auto
  then show ?thesis using pos nt arrived by simp
qed

text \<open>
  C6 as stated fails: with a transport that always fails and \<open>maxRetries = 1\<close> the one
  item of the run receives two failure callbacks, one in the primary pass and one in the
  retry round.
\<close>

theorem two_callbacks_counterexample:
  "map_option (item_callbacks ''a'' \<circ> trace \<circ> snd)
     (uploadTask offline (Some (sample_task [sample_image ''a''] 10 1)) busy) = Some 2"
  by (simp add: run_defs sample_defs)

section \<open>The end of a run\<close>





section \<open>Settled entries\<close>









section \<open>Requests that arrive during a run\<close>

lemma phases_conforming:
  assumes "0 < batchSize td"
  shows "\<exists>st3. uploadTask env (Some td) st = Some (stop_service env td st3) \<and> conforming td st st3"
proof -
  have "\<exists>st1 st2 st3. batch_loop env td Primary (images td) 0 st = Some st1 \<and>
           drain_queue env td st1 = Some st2 \<and> retry_failed env td st2 = Some st3 \<and>
           conforming td st st1 \<and> conforming td st1 st2 \<and> conforming td st2 st3"
  proof (rule phases_rule[of td env "conforming td", OF assms])
    show "conforming td s s'" if "batch_loop env td ps xs 0 s = Some s'" for ps xs s s'
      using pass_conforming[OF assms, of env ps xs s] that by auto
    show "conforming td s s" for s by (rule conforming_refl)
    show "conforming td s s''" if "conforming td s s'" "conforming td s' s''" for s s' s''
      using that by (rule conforming_trans)
    show "conforming td s (s\<lparr>queuedImages := []\<rparr>)" for s by (simp add: conforming_def)
    show "conforming td s (s\<lparr>failedImages := [], console := console s @ [Retrying k]\<rparr>)" for s k
      by (simp add: conforming_def)
  qed
  then obtain st1 st2 st3 where "batch_loop env td Primary (images td) 0 st = Some st1"
      "drain_queue env td st1 = Some st2" "retry_failed env td st2 = Some st3"
      "conforming td st st1" "conforming td st1 st2" "conforming td st2 st3"
    by blast
  then have "uploadTask env (Some td) st = Some (stop_service env td st3)" "conforming td st st3"
    using uploadTask_unfold conforming_trans by blast+
  then show ?thesis by blast
qed

lemma stop_service_conforming: "conforming td s (snd (stop_service env td s))"
  by (simp add: conforming_def stop_service_effect(1) split: option.splits)

lemma drain_conforming:
  assumes "0 < batchSize td"
  shows "\<exists>s' new. drain_queue env td s = Some s' \<and> trace s' = trace s @ new \<and>
           list_all (conforms td) new \<and> (\<forall>p. submissions p new = occurrences p (queuedImages s))"
proof (cases "queuedImages s = []")
  case True
  then show ?thesis by (simp add: drain_queue_def)
next
  case False
  obtain s' where loop: "batch_loop env td Drain (queuedImages s) 0 (s\<lparr>queuedImages := []\<rparr>) = Some s'"
      and "conforming td (s\<lparr>queuedImages := []\<rparr>) s'"
    using pass_conforming[OF assms] by blast
  then obtain new where new: "trace s' = trace s @ new" "list_all (conforms td) new"
    by (auto simp: conforming_def)
  have "submissions p new = occurrences p (queuedImages s)" for p
    using drain_attempts[OF assms, of env s p] loop False new(1) by (simp add: drain_queue_def)
  then show ?thesis using loop new False by (simp add: drain_queue_def)
qed

text \<open>
  What the code does for the items that are in the pending queue when the drain begins.
  While the service runs, what \<open>startBackgroundUpload\<close> does with a request depends on
  the items of the request alone. The drain submits each queued item once and, when the
  item callbacks are supplied and none throws, reports it once; and every event of the
  drain, as of the whole run, uses the transport, the url, the compression flag and the
  callbacks of the task data of the run.
\<close>

lemma drain_reports:
  assumes "0 < batchSize td"
  shows "(isRunning st \<longrightarrow>
            (\<forall>req'. opt_images (uploadOptions req') = opt_images (uploadOptions req) \<longrightarrow>
               startBackgroundUpload env req' st = startBackgroundUpload env req st)) \<and>
         (\<forall>s. \<exists>s' new. drain_queue env td s = Some s' \<and> trace s' = trace s @ new \<and>
            list_all (conforms td) new \<and>
            (\<forall>p. submissions p new = occurrences p (queuedImages s)) \<and>
            (never_throws env \<and> onSuccess td \<noteq> None \<and> onFailure td \<noteq> None \<longrightarrow>
               (\<forall>p. item_callbacks p new = occurrences p (queuedImages s)))) \<and>
         (\<exists>r st' new. uploadTask env (Some td) st = Some (r, st') \<and> trace st' = trace st @ new \<and>
            list_all (conforms td) new)"
proof -
  have 1: "isRunning st \<longrightarrow>
            (\<forall>req'. opt_images (uploadOptions req') = opt_images (uploadOptions req) \<longrightarrow>
               startBackgroundUpload env req' st = startBackgroundUpload env req st)"
    by (simp add: startBackgroundUpload_def enqueue_def)
  have 2: "\<exists>s' new. drain_queue env td s = Some s' \<and> trace s' = trace s @ new \<and>
            list_all (conforms td) new \<and>
            (\<forall>p. submissions p new = occurrences p (queuedImages s)) \<and>
            (never_throws env \<and> onSuccess td \<noteq> None \<and> onFailure td \<noteq> None \<longrightarrow>
               (\<forall>p. item_callbacks p new = occurrences p (queuedImages s)))" for s
  proof -
    obtain s' new where d: "drain_queue env td s = Some s'" "trace s' = trace s @ new"
        "list_all (conforms td) new" "\<forall>p. submissions p new = occurrences p (queuedImages s)"
      using drain_conforming[OF assms] by blast
    have "item_callbacks p new = occurrences p (queuedImages s)"
      if h: "never_throws env \<and> onSuccess td \<noteq> None \<and> onFailure td \<noteq> None" for p
    proof (cases "queuedImages s = []")
      case True
      then show ?thesis using d by (simp add: drain_queue_def)
    next
      case False
      then have "batch_loop env td Drain (queuedImages s) 0 (s\<lparr>queuedImages := []\<rparr>) = Some s'"
        using d(1) by (simp add: drain_queue_def)
      then have "paired p (s\<lparr>queuedImages := []\<rparr>) s'"
        using pass_paired[of td env Drain "queuedImages s" "s\<lparr>queuedImages := []\<rparr>" p] assms h by auto
      then show ?thesis using d(2,4) by (simp add: paired_def)
    qed
    then show ?thesis using d by blast
  qed
  obtain st3 where run: "uploadTask env (Some td) st = Some (stop_service env td st3)"
      and c: "conforming td st st3"
    using phases_conforming[OF assms] by blast
  have "conforming td st (snd (stop_service env td st3))"
    by (rule conforming_trans[OF c stop_service_conforming])
  then have 3: "\<exists>r st' new. uploadTask env (Some td) st = Some (r, st') \<and> trace st' = trace st @ new \<and>
            list_all (conforms td) new"
    using run by (cases "stop_service env td st3") (auto simp: conforming_def)
  show ?thesis using 1 2 3 by blast
qed

text \<open>
  C10 fails on the code. The run has the one item \<open>a\<close> and the transport 7, the url of
  the host and the callbacks 1 to 5; the requests that arrive carry the transport 8,
  another url and the callbacks 11, 12 and 15. A request made while the service runs is
  accepted with its items alone. The item \<open>b\<close>, which arrives during the primary pass,
  is uploaded and reported with the transport, the url and the success callback of the
  run. The item \<open>c\<close>, which arrives during the drain, is accepted in the same way and
  then never uploaded and never reported.
\<close>

theorem late_request_not_uploaded:
  "startBackgroundUpload late_arrivals (other_request [sample_image ''c'']) busy =
     Some (Inr (), busy\<lparr>queuedImages := [sample_image ''c'']\<rparr>) \<and>
   map_option (events_of ''b'' \<circ> trace \<circ> snd)
     (uploadTask late_arrivals (Some (sample_task [sample_image ''a''] 10 1)) busy) =
     Some [Submitted (sample_image ''b'') 7 ''https://host/upload''
             (formData (sample_image ''b'') (uri (sample_image ''b''))),
           SuccessCb 1 [(''success'', JBool True), (''photoId'', JStr ''b'')]] \<and>
   map_option (events_of ''c'' \<circ> trace \<circ> snd)
     (uploadTask late_arrivals (Some (sample_task [sample_image ''a''] 10 1)) busy) = Some []"
  by (simp add: run_defs sample_defs late_arrivals_def other_request_def events_of_def
        startBackgroundUpload_def)

section \<open>Items queued after the drain\<close>

text \<open>
  C7 fails on the code. The run has the one item \<open>a\<close>; a request with the item \<open>b\<close>
  arrives during the primary pass and a request with the item \<open>c\<close> during the drain.
  After the drain \<open>c\<close> is in the pending queue. The run ends with \<open>b\<close> submitted once,
  \<open>c\<close> never submitted and never reported, and the queue empty: line 325 discards what
  arrived after the snapshot of line 234.
\<close>

theorem late_arrival_lost:
  "map_option (map photoId \<circ> queuedImages)
     (Option.bind (batch_loop late_arrivals (sample_task [sample_image ''a''] 10 1) Primary [sample_image ''a''] 0 busy)
        (drain_queue late_arrivals (sample_task [sample_image ''a''] 10 1))) = Some [''c''] \<and>
   map_option (submissions ''b'' \<circ> trace \<circ> snd)
     (uploadTask late_arrivals (Some (sample_task [sample_image ''a''] 10 1)) busy) = Some 1 \<and>
   map_option (submissions ''c'' \<circ> trace \<circ> snd)
     (uploadTask late_arrivals (Some (sample_task [sample_image ''a''] 10 1)) busy) = Some 0 \<and>
   map_option (item_callbacks ''c'' \<circ> trace \<circ> snd)
     (uploadTask late_arrivals (Some (sample_task [sample_image ''a''] 10 1)) busy) = Some 0 \<and>
   map_option (queuedImages \<circ> snd)
     (uploadTask late_arrivals (Some (sample_task [sample_image ''a''] 10 1)) busy) = Some []"
  by (simp add: run_defs sample_defs late_arrivals_def other_request_def)

end
